theory Spec2Isabelle
  imports
    Main
    "HOL-Library.Signed_Division"
    "HOL-Library.Log_Nat"
    "HOL-Library.Word"
begin

chapter \<open>The JetStream buffer reader and the buffer commands of numaflow\<close>

section \<open>Go's float64 and time.Duration\<close>

text \<open>
  \<^verbatim>\<open>NewJetStreamBufferReader\<close> and \<^verbatim>\<open>newOffset\<close> go through
  \<^verbatim>\<open>time.Duration.Seconds()\<close>, which computes in float64. A finite float64 is the
  rational it denotes; every arithmetic operation is the exact operation followed by
  rounding to the nearest float64, ties to even (53 significant bits, least exponent
  \<open>-1074\<close>). Overflow to infinity is not modelled: every operand below comes from an
  int64 and stays under \<open>2^64\<close>.
\<close>

type_synonym float64 = rat

text \<open>Round a rational to the nearest integer, ties to the even one.\<close>

definition rne :: "rat \<Rightarrow> int" where
  "rne q = (let f = \<lfloor>q\<rfloor>; r = q - of_int f in
     if r < 1 / 2 then f else if 1 / 2 < r then f + 1 else if even f then f else f + 1)"

text \<open>The binary exponent of a positive rational: \<open>2^e \<le> x < 2^(e+1)\<close>.\<close>

definition expo :: "rat \<Rightarrow> int" where
  "expo x = (let (p, q) = quotient_of x; e0 = bitlen p - bitlen q in
     if 2 powi e0 \<le> x then e0 else e0 - 1)"

definition fl_pos :: "rat \<Rightarrow> float64" where
  "fl_pos x = (let q = max (expo x - 52) (- 1074) in of_int (rne (x / 2 powi q)) * 2 powi q)"

definition fl :: "rat \<Rightarrow> float64" where
  "fl x = (if x = 0 then 0 else if 0 < x then fl_pos x else - fl_pos (- x))"

definition float64_of_int :: "int \<Rightarrow> float64" where
  "float64_of_int i = fl (of_int i)"

definition fadd :: "float64 \<Rightarrow> float64 \<Rightarrow> float64" where
  "fadd a b = fl (a + b)"

definition fmul :: "float64 \<Rightarrow> float64 \<Rightarrow> float64" where
  "fmul a b = fl (a * b)"

definition fdiv :: "float64 \<Rightarrow> float64 \<Rightarrow> float64" where
  "fdiv a b = fl (a / b)"

text \<open>\<^verbatim>\<open>int64(f)\<close> of a float64 inside the int64 range: the fraction is discarded.\<close>

definition int64_of_float :: "float64 \<Rightarrow> int" where
  "int64_of_float f = (if 0 \<le> f then \<lfloor>f\<rfloor> else \<lceil>f\<rceil>)"

text \<open>An int64 product wraps around.\<close>

definition int64 :: "int \<Rightarrow> int" where
  "int64 i = (i + 2 ^ 63) mod 2 ^ 64 - 2 ^ 63"

text \<open>A \<^verbatim>\<open>time.Duration\<close> is an int64 count of nanoseconds.\<close>

type_synonym Duration = int

definition Second :: Duration where
  "Second = 1000000000"

text \<open>
  \<^verbatim>\<open>func (d Duration) Seconds() float64 {
    sec := d / Second; nsec := d % Second
    return float64(sec) + float64(nsec)/1e9 }\<close>
  Go's integer division truncates towards zero.
\<close>

definition Seconds :: "Duration \<Rightarrow> float64" where
  "Seconds d = (let sec = d sdiv Second; nsec = d smod Second in
     fadd (float64_of_int sec) (fdiv (float64_of_int nsec) 1000000000))"

section \<open>Errors\<close>

text \<open>
  The sentinel errors of the nats client that the reader tests for, any other error, and
  \<^verbatim>\<open>fmt.Errorf("... %w", err)\<close>, which wraps an error under a message.
\<close>

datatype error =
    ErrTimeout
  | ErrMsgAlreadyAckd
  | ErrMsgNotFound
  | ErrOther string
  | Errorf string error

text \<open>\<^verbatim>\<open>errors.Is\<close>: the error itself or anything it wraps equals the target.\<close>

fun errors_Is :: "error \<Rightarrow> error \<Rightarrow> bool" where
  "errors_Is (Errorf m e) target = (Errorf m e = target \<or> errors_Is e target)"
| "errors_Is e target = (e = target)"

text \<open>A Go panic: here only the nil dereference and the call of a nil function.\<close>

datatype panic = NilDereference

section \<open>Messages, offsets and the heartbeat tasks\<close>

record MsgMetadata =
  Sequence_Stream :: "64 word"

text \<open>
  A \<^verbatim>\<open>nats.Msg\<close>. The header maps a key to the first value stored under it, which is
  all that \<^verbatim>\<open>Header.Get\<close> reads. \<^verbatim>\<open>msg.Metadata()\<close> gives the metadata or
  \<open>(nil, err)\<close>, here \<open>None\<close>.
\<close>

record Msg =
  msg_Header :: "string \<rightharpoonup> string"
  msg_Data :: string
  msg_Metadata :: "MsgMetadata option"

definition Header_Get :: "(string \<rightharpoonup> string) \<Rightarrow> string \<Rightarrow> string" where
  "Header_Get h k = (case h k of None \<Rightarrow> [] | Some v \<Rightarrow> v)"

text \<open>
  A heartbeat is the goroutine \<^verbatim>\<open>workInProgess\<close> with the context it listens on. The
  world holds the broker (of any type \<open>'b\<close>), every heartbeat spawned so far under the
  identifier of its context, and the per-buffer counter \<^verbatim>\<open>isbReadErrors\<close>.
\<close>

record heartbeat =
  hb_msg :: Msg
  hb_tick :: Duration
  hb_cancelled :: bool

record 'b world =
  broker :: 'b
  next_ctx :: nat
  heartbeats :: "nat \<rightharpoonup> heartbeat"
  isbReadErrors :: "string \<Rightarrow> nat"

text \<open>
  \<^verbatim>\<open>type offset struct { seq uint64; msg *nats.Msg; cancelFunc context.CancelFunc }\<close>
  The cancel function is the identifier of the context it cancels; \<open>None\<close> is nil.
\<close>

record offset =
  seq :: "64 word"
  msg :: Msg
  cancelFunc :: "nat option"

definition cancel_ctx :: "nat \<Rightarrow> 'b world \<Rightarrow> 'b world" where
  "cancel_ctx c w =
     (case heartbeats w c of
        None \<Rightarrow> w
      | Some h \<Rightarrow> w\<lparr>heartbeats := (heartbeats w)(c \<mapsto> h\<lparr>hb_cancelled := True\<rparr>)\<rparr>)"

text \<open>Calling a function value: calling nil panics.\<close>

definition call_cancel :: "nat option \<Rightarrow> 'b world \<Rightarrow> panic + 'b world" where
  "call_cancel f w = (case f of None \<Rightarrow> Inl NilDereference | Some c \<Rightarrow> Inr (cancel_ctx c w))"

text \<open>
  \<^verbatim>\<open>func newOffset(msg, tickDuration, log) *offset\<close>: the metadata error is dropped, so
  a message without metadata is a nil dereference; a heartbeat is spawned when
  \<^verbatim>\<open>tickDuration.Seconds() > 1\<close>.
\<close>

definition newOffset :: "Msg \<Rightarrow> Duration \<Rightarrow> 'b world \<Rightarrow> panic + (offset \<times> 'b world)" where
  "newOffset m tickDuration w =
     (case msg_Metadata m of
        None \<Rightarrow> Inl NilDereference
      | Some metadata \<Rightarrow>
          let off = \<lparr>seq = Sequence_Stream metadata, msg = m, cancelFunc = None\<rparr> in
          if 1 < Seconds tickDuration then
            let c = next_ctx w;
                w' = w\<lparr>next_ctx := Suc c,
                       heartbeats := (heartbeats w)(c \<mapsto>
                         \<lparr>hb_msg = m, hb_tick = tickDuration, hb_cancelled = False\<rparr>)\<rparr>
            in Inr (off\<lparr>cancelFunc := Some c\<rparr>, w')
          else Inr (off, w))"

text \<open>
  \<^verbatim>\<open>func (o *offset) AckIt() error\<close>. The broker's answer to \<^verbatim>\<open>msg.AckSync()\<close> is the
  parameter \<open>AckSync\<close>: from the broker's state and the message, the error (or nil) and the
  broker's next state.
\<close>

definition AckIt ::
  "('b \<Rightarrow> Msg \<Rightarrow> error option \<times> 'b) \<Rightarrow> offset \<Rightarrow> 'b world \<Rightarrow> panic + (error option \<times> 'b world)"
where
  "AckIt AckSync off w =
     (case (if cancelFunc off \<noteq> None then call_cancel (cancelFunc off) w else Inr w) of
        Inl p \<Rightarrow> Inl p
      | Inr w1 \<Rightarrow>
          (case AckSync (broker w1) (msg off) of
             (err, b') \<Rightarrow>
               let w2 = w1\<lparr>broker := b'\<rparr> in
               (case err of
                  None \<Rightarrow> Inr (None, w2)
                | Some e \<Rightarrow>
                    if \<not> errors_Is e ErrMsgAlreadyAckd \<and> \<not> errors_Is e ErrMsgNotFound
                    then Inr (Some e, w2)
                    else Inr (None, w2))))"

text \<open>
  A broker for the examples: it remembers the stream sequences it has seen ack'd and
  answers a repeated ack with \<^verbatim>\<open>ErrMsgAlreadyAckd\<close>, an ack of a message without
  metadata with \<^verbatim>\<open>ErrMsgNotFound\<close>, and fails on sequence 0.
\<close>

definition example_AckSync :: "64 word list \<Rightarrow> Msg \<Rightarrow> error option \<times> 64 word list" where
  "example_AckSync acked m =
     (case msg_Metadata m of
        None \<Rightarrow> (Some ErrMsgNotFound, acked)
      | Some md \<Rightarrow>
          if Sequence_Stream md = 0 then (Some (ErrOther ''connection closed''), acked)
          else if Sequence_Stream md \<in> set acked then (Some ErrMsgAlreadyAckd, acked)
          else (None, Sequence_Stream md # acked))"

definition example_msg :: "64 word \<Rightarrow> Msg" where
  "example_msg n = \<lparr>msg_Header = Map.empty, msg_Data = ''x'',
     msg_Metadata = Some \<lparr>Sequence_Stream = n\<rparr>\<rparr>"

definition example_world :: "(64 word list) world" where
  "example_world = \<lparr>broker = [], next_ctx = 0, heartbeats = Map.empty, isbReadErrors = (\<lambda>_. 0)\<rparr>"

section \<open>Decoding the message header\<close>

text \<open>
  A \<^verbatim>\<open>time.Time\<close> is either the zero value of the struct or what
  \<^verbatim>\<open>time.UnixMilli\<close> made of a count of milliseconds since the Unix epoch.
\<close>

datatype Time = Time_zero | UnixMilli int

record isb_Header =
  IsWindow :: bool
  ID :: string
  Key :: string
  EventTime :: Time
  StartTime :: Time
  EndTime :: Time

definition isb_Header_zero :: isb_Header where
  "isb_Header_zero = \<lparr>IsWindow = False, ID = [], Key = [], EventTime = Time_zero,
     StartTime = Time_zero, EndTime = Time_zero\<rparr>"

text \<open>
  The header keys \<^verbatim>\<open>_window\<close>, \<^verbatim>\<open>_id\<close>, \<^verbatim>\<open>_key\<close>, \<^verbatim>\<open>_eventTime\<close>,
  \<^verbatim>\<open>_startTime\<close> and \<^verbatim>\<open>_endTime\<close> are constants of the package declared outside
  the reader; the decoder takes them as a parameter.
\<close>

record header_keys =
  k_window :: string
  k_id :: string
  k_key :: string
  k_eventTime :: string
  k_startTime :: string
  k_endTime :: string

text \<open>The keys as the specification names them, for the examples.\<close>

definition spec_keys :: header_keys where
  "spec_keys = \<lparr>k_window = ''window'', k_id = ''id'', k_key = ''key'',
     k_eventTime = ''eventTime'', k_startTime = ''startTime'', k_endTime = ''endTime''\<rparr>"

text \<open>
  \<^verbatim>\<open>strconv.ParseInt(s, 10, 64)\<close> with \<^verbatim>\<open>strconv.ParseUint\<close> under it, for base 10
  and 64 bits. Both return a value and an error; on a syntax error the value is 0, on a
  range error it is the nearest bound. The loop of \<^verbatim>\<open>ParseUint\<close> returns the range
  error at the digit that overflows, without looking at the rest of the text.
\<close>

datatype NumError = ErrSyntax | ErrRange

definition maxUint64 :: nat where
  "maxUint64 = 2 ^ 64 - 1"

text \<open>The digit value of a byte as \<^verbatim>\<open>ParseUint\<close> reads it: decimal digits, then letters from 10.\<close>

definition digit_of :: "char \<Rightarrow> nat option" where
  "digit_of c =
     (let b = (of_char c :: nat);
          lower = (if 65 \<le> b \<and> b \<le> 90 then b + 32 else b) in
      if 48 \<le> b \<and> b \<le> 57 then Some (b - 48)
      else if 97 \<le> lower \<and> lower \<le> 122 then Some (lower - 97 + 10)
      else None)"

fun ParseUint_loop :: "nat \<Rightarrow> string \<Rightarrow> nat \<times> NumError option" where
  "ParseUint_loop n [] = (n, None)"
| "ParseUint_loop n (c # cs) =
     (case digit_of c of
        None \<Rightarrow> (0, Some ErrSyntax)
      | Some d \<Rightarrow>
          if 10 \<le> d then (0, Some ErrSyntax)
          else if maxUint64 div 10 + 1 \<le> n then (maxUint64, Some ErrRange)
          else
            let n10 = n * 10; n1 = (n10 + d) mod 2 ^ 64 in
            if n1 < n10 \<or> maxUint64 < n1 then (maxUint64, Some ErrRange)
            else ParseUint_loop n1 cs)"

definition ParseUint :: "string \<Rightarrow> nat \<times> NumError option" where
  "ParseUint s = (if s = [] then (0, Some ErrSyntax) else ParseUint_loop 0 s)"

definition ParseInt :: "string \<Rightarrow> int \<times> NumError option" where
  "ParseInt s =
     (case s of
        [] \<Rightarrow> (0, Some ErrSyntax)
      | c # cs \<Rightarrow>
          let neg = (c = CHR ''-'');
              s1 = (if c = CHR ''+'' \<or> c = CHR ''-'' then cs else s)
          in case ParseUint s1 of
               (un, err) \<Rightarrow>
                 if err \<noteq> None \<and> err \<noteq> Some ErrRange then (0, err)
                 else if \<not> neg \<and> 2 ^ 63 \<le> un then (2 ^ 63 - 1, Some ErrRange)
                 else if neg \<and> 2 ^ 63 < un then (- (2 ^ 63), Some ErrRange)
                 else (if neg then - int un else int un, None))"

text \<open>
  \<^verbatim>\<open>if x := header.Get(_eventTime); x != "" { i, _ := strconv.ParseInt(x, 10, 64);
  r.EventTime = time.UnixMilli(i) }\<close>: the error is dropped, the value is kept.
\<close>

definition decode_time :: "string \<Rightarrow> Time \<Rightarrow> Time" where
  "decode_time x old = (if x \<noteq> [] then UnixMilli (fst (ParseInt x)) else old)"

definition convert2IsbMsgHeader :: "header_keys \<Rightarrow> (string \<rightharpoonup> string) \<Rightarrow> isb_Header" where
  "convert2IsbMsgHeader keys header =
     (let r0 = isb_Header_zero;
          r1 = (if Header_Get header (k_window keys) = ''1'' then r0\<lparr>IsWindow := True\<rparr> else r0);
          r2 = (let x = Header_Get header (k_id keys) in if x \<noteq> [] then r1\<lparr>ID := x\<rparr> else r1);
          r3 = (let x = Header_Get header (k_key keys) in if x \<noteq> [] then r2\<lparr>Key := x\<rparr> else r2);
          r4 = r3\<lparr>EventTime := decode_time (Header_Get header (k_eventTime keys)) (EventTime r3)\<rparr>;
          r5 = r4\<lparr>StartTime := decode_time (Header_Get header (k_startTime keys)) (StartTime r4)\<rparr>;
          r6 = r5\<lparr>EndTime := decode_time (Header_Get header (k_endTime keys)) (EndTime r5)\<rparr>
      in r6)"

text \<open>
  The claim's words for a numeric header: an optional sign followed by one or more
  decimal digits and nothing else.
\<close>

definition is_decimal_digit :: "char \<Rightarrow> bool" where
  "is_decimal_digit c = (48 \<le> (of_char c :: nat) \<and> (of_char c :: nat) \<le> 57)"

definition strip_sign :: "string \<Rightarrow> string" where
  "strip_sign s = (case s of [] \<Rightarrow> [] | c # cs \<Rightarrow> if c = CHR ''+'' \<or> c = CHR ''-'' then cs else s)"

definition numeric :: "string \<Rightarrow> bool" where
  "numeric s = (strip_sign s \<noteq> [] \<and> list_all is_decimal_digit (strip_sign s))"

text \<open>The number that a run of decimal digits denotes.\<close>

definition decimal_value :: "string \<Rightarrow> nat" where
  "decimal_value ds = foldl (\<lambda>n c. n * 10 + (of_char c - 48)) 0 ds"

section \<open>The reader: construction and Read\<close>

record readOptions =
  readTimeOut :: Duration

text \<open>
  A \<^verbatim>\<open>ReadOption\<close> is a \<^verbatim>\<open>func(*readOptions) error\<close>: it may change the options and
  may fail. A nil option is \<open>None\<close>.
\<close>

type_synonym ReadOption = "readOptions \<Rightarrow> error option \<times> readOptions"

record jetStreamReader =
  jr_name :: string
  jr_stream :: string
  jr_subject :: string
  jr_opts :: readOptions
  inProgessTickDuration :: Duration

text \<open>
  What the client and the server answer during construction: the error of
  \<^verbatim>\<open>client.Connect\<close>, of \<^verbatim>\<open>conn.JetStream\<close>, of \<^verbatim>\<open>js.PullSubscribe\<close>, and the
  error or the consumer's \<^verbatim>\<open>AckWait\<close> from \<^verbatim>\<open>js.ConsumerInfo\<close>.
\<close>

record setup_env =
  env_Connect :: "error option"
  env_JetStream :: "error option"
  env_PullSubscribe :: "error option"
  env_ConsumerInfo :: "error + Duration"

text \<open>The connection the constructor acquires: never made, open, or closed again.\<close>

datatype conn_state = NotConnected | ConnOpen | ConnClosed

definition connectAndSubscribe :: "setup_env \<Rightarrow> string \<Rightarrow> error option \<times> conn_state" where
  "connectAndSubscribe env subject =
     (case env_Connect env of
        Some e \<Rightarrow> (Some (Errorf ''failed to get nats connection'' e), NotConnected)
      | None \<Rightarrow>
          (case env_JetStream env of
             Some e \<Rightarrow> (Some (Errorf ''failed to get jetstream context'' e), ConnClosed)
           | None \<Rightarrow>
               (case env_PullSubscribe env of
                  Some e \<Rightarrow>
                    (Some (Errorf (''failed to subscribe jet stream subject '' @ subject) e), ConnClosed)
                | None \<Rightarrow> (None, ConnOpen))))"

text \<open>
  \<^verbatim>\<open>for _, opt := range opts { if opt != nil { if err := opt(o); err != nil { return nil, err } } }\<close>
\<close>

fun apply_opts :: "ReadOption option list \<Rightarrow> readOptions \<Rightarrow> error + readOptions" where
  "apply_opts [] ro = Inr ro"
| "apply_opts (None # opts) ro = apply_opts opts ro"
| "apply_opts (Some opt # opts) ro =
     (case opt ro of
        (Some e, _) \<Rightarrow> Inl e
      | (None, ro') \<Rightarrow> apply_opts opts ro')"

text \<open>For the examples: a read option that fails, and a client and server that succeed.\<close>

definition failing_option :: ReadOption where
  "failing_option ro = (Some (ErrOther ''bad option''), ro)"

definition example_env :: "Duration \<Rightarrow> setup_env" where
  "example_env ackWait = \<lparr>env_Connect = None, env_JetStream = None, env_PullSubscribe = None,
     env_ConsumerInfo = Inr ackWait\<rparr>"

text \<open>
  \<^verbatim>\<open>inProgessTickSeconds := int64(consumer.Config.AckWait.Seconds() * 2 / 3)
  if inProgessTickSeconds < 1 { inProgessTickSeconds = 1 }\<close>
\<close>

definition inProgessTickSeconds :: "Duration \<Rightarrow> int" where
  "inProgessTickSeconds ackWait =
     (let s = int64_of_float (fdiv (fmul (Seconds ackWait) 2) 3) in if s < 1 then 1 else s)"

text \<open>
  \<^verbatim>\<open>NewJetStreamBufferReader\<close>: the result, and the state the connection is left in.
  \<^verbatim>\<open>defaultReadOptions()\<close> is declared outside the reader and is a parameter.
\<close>

definition NewJetStreamBufferReader ::
  "setup_env \<Rightarrow> readOptions \<Rightarrow> string \<Rightarrow> string \<Rightarrow> string \<Rightarrow> ReadOption option list
     \<Rightarrow> (error + jetStreamReader) \<times> conn_state"
where
  "NewJetStreamBufferReader env defaultReadOptions name stream subject opts =
     (case connectAndSubscribe env subject of
        (Some err, c) \<Rightarrow> (Inl err, c)
      | (None, c) \<Rightarrow>
          (case apply_opts opts defaultReadOptions of
             Inl err \<Rightarrow> (Inl err, c)
           | Inr ro \<Rightarrow>
               (case env_ConsumerInfo env of
                  Inl err \<Rightarrow> (Inl (Errorf ''failed to get consumer info'' err), ConnClosed)
                | Inr ackWait \<Rightarrow>
                    (Inr \<lparr>jr_name = name, jr_stream = stream, jr_subject = subject, jr_opts = ro,
                          inProgessTickDuration =
                            int64 (inProgessTickSeconds ackWait * int64 Second)\<rparr>, c))))"

record ReadMessage =
  ReadOffset :: offset
  Header :: isb_Header
  Payload :: string

text \<open>The loop of \<^verbatim>\<open>Read\<close> over the fetched messages, appending to \<open>result\<close>.\<close>

fun Read_loop ::
  "header_keys \<Rightarrow> Duration \<Rightarrow> Msg list \<Rightarrow> ReadMessage list \<Rightarrow> 'b world
     \<Rightarrow> panic + (ReadMessage list \<times> 'b world)"
where
  "Read_loop keys tick [] result w = Inr (result, w)"
| "Read_loop keys tick (m # msgs) result w =
     (case newOffset m tick w of
        Inl p \<Rightarrow> Inl p
      | Inr (off, w') \<Rightarrow>
          Read_loop keys tick msgs
            (result @ [\<lparr>ReadOffset = off, Header = convert2IsbMsgHeader keys (msg_Header m),
                         Payload = msg_Data m\<rparr>]) w')"

text \<open>
  \<^verbatim>\<open>func (jr *jetStreamReader) Read(_ context.Context, count int64) ([]*isb.ReadMessage, error)\<close>.
  What \<^verbatim>\<open>jr.sub.Fetch(int(count), nats.MaxWait(jr.opts.readTimeOut))\<close> answers is the
  parameter \<open>Fetch\<close>: the messages and the error. A nil slice is the empty list.
\<close>

definition Read ::
  "header_keys \<Rightarrow> (int \<Rightarrow> Duration \<Rightarrow> Msg list \<times> error option) \<Rightarrow> jetStreamReader \<Rightarrow> int
     \<Rightarrow> 'b world \<Rightarrow> panic + ((ReadMessage list \<times> error option) \<times> 'b world)"
where
  "Read keys Fetch jr count w =
     (case Fetch count (readTimeOut (jr_opts jr)) of
        (msgs, err) \<Rightarrow>
          (case (case err of None \<Rightarrow> None
                 | Some e \<Rightarrow> if \<not> errors_Is e ErrTimeout then Some e else None) of
             Some e \<Rightarrow>
               Inr (([], Some (Errorf (''failed to fetch messages from jet stream subject ''
                                      @ jr_subject jr) e)),
                    w\<lparr>isbReadErrors := (isbReadErrors w)
                         (jr_name jr := Suc (isbReadErrors w (jr_name jr)))\<rparr>)
           | None \<Rightarrow>
               (case Read_loop keys (inProgessTickDuration jr) msgs [] w of
                  Inl p \<Rightarrow> Inl p
                | Inr (result, w') \<Rightarrow> Inr ((result, None), w'))))"

section \<open>Ack: one goroutine per offset\<close>

text \<open>
  \<^verbatim>\<open>Ack\<close> starts a goroutine per offset, then one that waits for the
  \<^verbatim>\<open>WaitGroup\<close> and closes \<^verbatim>\<open>done\<close>, and blocks on \<^verbatim>\<open>done\<close>. The model is an
  interleaving of threads, driven by a schedule that names the thread to take its next
  step; a thread that cannot move stays where it is. A worker moves from its call of
  \<^verbatim>\<open>AckIt\<close> to the write of \<^verbatim>\<open>errs[index]\<close> to the deferred \<^verbatim>\<open>wg.Done()\<close>, and
  keeps the world its \<^verbatim>\<open>AckIt\<close> ran in and the error it returned.
\<close>

datatype 'w worker =
    Unborn
  | Ready
  | Acked 'w "error option"
  | Stored 'w "error option"
  | Exited 'w "error option"

datatype main_pc = Spawning nat | Blocked | Returned

datatype waiter_pc = NotStarted | Waiting | Closed

datatype thread = Main | Worker nat | Waiter

record 'w ack_state =
  a_main :: main_pc
  a_workers :: "'w worker list"
  a_waiter :: waiter_pc
  a_wg :: int
  a_done :: bool
  a_errs :: "error option list"
  a_world :: 'w
  a_panic :: bool

definition Ack_init :: "'o list \<Rightarrow> 'w \<Rightarrow> 'w ack_state" where
  "Ack_init offsets w =
     \<lparr>a_main = Spawning 0, a_workers = replicate (length offsets) Unborn, a_waiter = NotStarted,
      a_wg = 0, a_done = False, a_errs = replicate (length offsets) None, a_world = w,
      a_panic = False\<rparr>"

definition main_step :: "'o list \<Rightarrow> 'w ack_state \<Rightarrow> 'w ack_state" where
  "main_step offsets s =
     (case a_main s of
        Spawning idx \<Rightarrow>
          if idx < length offsets
          then s\<lparr>a_wg := a_wg s + 1, a_workers := (a_workers s)[idx := Ready],
                 a_main := Spawning (Suc idx)\<rparr>
          else s\<lparr>a_waiter := Waiting, a_main := Blocked\<rparr>
      | Blocked \<Rightarrow> if a_done s then s\<lparr>a_main := Returned\<rparr> else s
      | Returned \<Rightarrow> s)"

definition worker_step ::
  "('o \<Rightarrow> 'w \<Rightarrow> panic + (error option \<times> 'w)) \<Rightarrow> 'o list \<Rightarrow> nat \<Rightarrow> 'w ack_state \<Rightarrow> 'w ack_state"
where
  "worker_step ackit offsets index s =
     (if length (a_workers s) \<le> index then s
      else case a_workers s ! index of
        Unborn \<Rightarrow> s
      | Ready \<Rightarrow>
          (case ackit (offsets ! index) (a_world s) of
             Inl p \<Rightarrow> s\<lparr>a_panic := True\<rparr>
           | Inr (err, w') \<Rightarrow>
               s\<lparr>a_world := w', a_workers := (a_workers s)[index := Acked (a_world s) err]\<rparr>)
      | Acked w err \<Rightarrow>
          s\<lparr>a_errs := (if err \<noteq> None then (a_errs s)[index := err] else a_errs s),
            a_workers := (a_workers s)[index := Stored w err]\<rparr>
      | Stored w err \<Rightarrow>
          if a_wg s - 1 < 0 then s\<lparr>a_panic := True\<rparr>
          else s\<lparr>a_wg := a_wg s - 1, a_workers := (a_workers s)[index := Exited w err]\<rparr>
      | Exited w err \<Rightarrow> s)"

definition waiter_step :: "'w ack_state \<Rightarrow> 'w ack_state" where
  "waiter_step s =
     (case a_waiter s of
        NotStarted \<Rightarrow> s
      | Waiting \<Rightarrow> if a_wg s = 0 then s\<lparr>a_done := True, a_waiter := Closed\<rparr> else s
      | Closed \<Rightarrow> s)"

text \<open>A panic in any goroutine ends the process: nothing moves afterwards.\<close>

definition Ack_step ::
  "('o \<Rightarrow> 'w \<Rightarrow> panic + (error option \<times> 'w)) \<Rightarrow> 'o list \<Rightarrow> 'w ack_state \<Rightarrow> thread \<Rightarrow> 'w ack_state"
where
  "Ack_step ackit offsets s t =
     (if a_panic s then s
      else case t of
        Main \<Rightarrow> main_step offsets s
      | Worker index \<Rightarrow> worker_step ackit offsets index s
      | Waiter \<Rightarrow> waiter_step s)"

definition Ack_run ::
  "('o \<Rightarrow> 'w \<Rightarrow> panic + (error option \<times> 'w)) \<Rightarrow> 'o list \<Rightarrow> thread list \<Rightarrow> 'w ack_state \<Rightarrow> 'w ack_state"
where
  "Ack_run ackit offsets sched s = foldl (Ack_step ackit offsets) s sched"

text \<open>
  \<^verbatim>\<open>Ack\<close> under a schedule: the error slice and the world once the main thread has
  returned, \<open>None\<close> while it is still blocked when the schedule ends.
\<close>

definition Ack ::
  "('o \<Rightarrow> 'w \<Rightarrow> panic + (error option \<times> 'w)) \<Rightarrow> thread list \<Rightarrow> 'o list \<Rightarrow> 'w
     \<Rightarrow> (error option list \<times> 'w) option"
where
  "Ack ackit sched offsets w =
     (let s = Ack_run ackit offsets sched (Ack_init offsets w) in
      if a_main s = Returned then Some (a_errs s, a_world s) else None)"

text \<open>
  The invariant of the interleaving: the \<^verbatim>\<open>WaitGroup\<close> counts the workers that are
  started and have not yet called \<^verbatim>\<open>Done\<close>; the main thread spawns the workers in
  order and starts the waiter after the last one; \<^verbatim>\<open>done\<close> is closed only at counter
  zero; and \<^verbatim>\<open>errs[i]\<close> is nil until worker \<open>i\<close> has stored what its \<^verbatim>\<open>AckIt\<close>
  returned. The measure counts the steps that remain.
\<close>

definition active :: "'w worker \<Rightarrow> bool" where
  "active x = (case x of Unborn \<Rightarrow> False | Exited w r \<Rightarrow> False | _ \<Rightarrow> True)"

definition worker_ok ::
  "('o \<Rightarrow> 'w \<Rightarrow> panic + (error option \<times> 'w)) \<Rightarrow> 'o \<Rightarrow> error option \<Rightarrow> 'w worker \<Rightarrow> bool"
where
  "worker_ok ackit off e x =
     (case x of
        Unborn \<Rightarrow> e = None
      | Ready \<Rightarrow> e = None
      | Acked w r \<Rightarrow> e = None \<and> (\<exists>w'. ackit off w = Inr (r, w'))
      | Stored w r \<Rightarrow> e = r \<and> (\<exists>w'. ackit off w = Inr (r, w'))
      | Exited w r \<Rightarrow> e = r \<and> (\<exists>w'. ackit off w = Inr (r, w')))"

definition main_ok :: "nat \<Rightarrow> 'w ack_state \<Rightarrow> bool" where
  "main_ok n s =
     (case a_main s of
        Spawning k \<Rightarrow> k \<le> n \<and> (\<forall>i<n. (a_workers s ! i = Unborn) = (k \<le> i))
          \<and> a_waiter s = NotStarted \<and> \<not> a_done s
      | Blocked \<Rightarrow> (\<forall>i<n. a_workers s ! i \<noteq> Unborn) \<and> a_waiter s \<noteq> NotStarted
      | Returned \<Rightarrow> (\<forall>i<n. a_workers s ! i \<noteq> Unborn) \<and> a_done s)"

definition ack_inv ::
  "('o \<Rightarrow> 'w \<Rightarrow> panic + (error option \<times> 'w)) \<Rightarrow> 'o list \<Rightarrow> 'w ack_state \<Rightarrow> bool"
where
  "ack_inv ackit offsets s =
     (length (a_workers s) = length offsets \<and> length (a_errs s) = length offsets
      \<and> \<not> a_panic s
      \<and> a_wg s = int (length (filter active (a_workers s)))
      \<and> main_ok (length offsets) s
      \<and> (a_done s \<longrightarrow> a_waiter s = Closed \<and> a_wg s = 0)
      \<and> (a_waiter s = Closed \<longrightarrow> a_done s)
      \<and> (\<forall>i<length offsets. worker_ok ackit (offsets ! i) (a_errs s ! i) (a_workers s ! i)))"

definition worker_rank :: "'w worker \<Rightarrow> nat" where
  "worker_rank x = (case x of Unborn \<Rightarrow> 3 | Ready \<Rightarrow> 3 | Acked w r \<Rightarrow> 2 | Stored w r \<Rightarrow> 1
     | Exited w r \<Rightarrow> 0)"

definition ack_measure :: "nat \<Rightarrow> 'w ack_state \<Rightarrow> nat" where
  "ack_measure n s =
     (case a_main s of Spawning k \<Rightarrow> (n - k) + 2 | Blocked \<Rightarrow> 1 | Returned \<Rightarrow> 0)
     + sum_list (map worker_rank (a_workers s))
     + (case a_waiter s of Closed \<Rightarrow> 0 | _ \<Rightarrow> 1)"

section \<open>The buffer commands\<close>

datatype cmd_error =
    EmptyBufferList
  | MissingEnv string
  | UnsupportedISBSvcType
  | BufferInvalid
  | BrokerFailure

definition EnvPipelineName :: string where
  "EnvPipelineName = ''PipelineName''"

definition supported_isbsvc_type :: "string \<Rightarrow> bool" where
  "supported_isbsvc_type t = (t = ''redis'' \<or> t = ''jetstream'')"

text \<open>
  Modelled from the spec: the three commands \<^verbatim>\<open>isbsvc-buffer-create\<close>,
  \<^verbatim>\<open>isbsvc-buffer-delete\<close> and \<^verbatim>\<open>isbsvc-buffer-validate\<close> are not among the sources,
  only their test \<^verbatim>\<open>Test_Commands\<close> is. Each takes the environment, the service type
  and the buffers, and the broker's answer to the provisioning as a parameter. The order
  of the checks is the one the test of create shows: with no buffer and no
  \<^verbatim>\<open>PipelineName\<close> the error is the empty buffer list; with a buffer, an unknown type and
  no \<^verbatim>\<open>PipelineName\<close> it is the missing variable; with \<^verbatim>\<open>PipelineName\<close> set it is the
  unsupported type. Delete and validate are symmetric.
\<close>

definition buffer_command ::
  "(string \<rightharpoonup> string) \<Rightarrow> string \<Rightarrow> string list \<Rightarrow> (string \<Rightarrow> string list \<Rightarrow> cmd_error option)
     \<Rightarrow> cmd_error option"
where
  "buffer_command env isbsvcType buffers broker_op =
     (if buffers = [] then Some EmptyBufferList
      else case env EnvPipelineName of
        None \<Rightarrow> Some (MissingEnv EnvPipelineName)
      | Some pipelineName \<Rightarrow>
          if \<not> supported_isbsvc_type isbsvcType then Some UnsupportedISBSvcType
          else broker_op pipelineName buffers)"

datatype lifecycle = Create | Delete | Validate

text \<open>
  Modelled from the spec: the command of each lifecycle operation, with the broker's
  provisioning, deletion and validation as parameters.
\<close>

definition ISBSvcBufferCommand ::
  "lifecycle \<Rightarrow> (lifecycle \<Rightarrow> string \<Rightarrow> string list \<Rightarrow> cmd_error option)
     \<Rightarrow> (string \<rightharpoonup> string) \<Rightarrow> string \<Rightarrow> string list \<Rightarrow> cmd_error option"
where
  "ISBSvcBufferCommand op isbsvc env isbsvcType buffers =
     buffer_command env isbsvcType buffers (isbsvc op)"

text \<open>For the examples: a broker on which every operation succeeds.\<close>

definition example_isbsvc :: "lifecycle \<Rightarrow> string \<Rightarrow> string list \<Rightarrow> cmd_error option" where
  "example_isbsvc op pipelineName buffers = None"

section \<open>Limit propagation\<close>

record VertexLimits =
  ReadBatchSize :: "64 word option"
  ReadTimeout :: "Duration option"

record PipelineLimits =
  pl_ReadBatchSize :: "64 word option"
  pl_ReadTimeout :: "Duration option"
  pl_BufferMaxLength :: "64 word option"
  pl_BufferUsageLimit :: "32 word option"

text \<open>
  Modelled from the spec: \<^verbatim>\<open>copyVertexLimits(pipeline, vertex)\<close> is not among the
  sources, only its test \<^verbatim>\<open>Test_copyVertexLimits\<close> is. Field by field, the vertex's
  value if it is not nil, else the pipeline's. As the test shows, a pipeline without
  limits leaves the vertex's limits as they are (nil stays nil). The arguments are the
  \<^verbatim>\<open>Limits\<close> pointers of the pipeline and of the vertex; the result is the vertex's
  pointer afterwards.
\<close>

definition copyVertexLimits :: "PipelineLimits option \<Rightarrow> VertexLimits option \<Rightarrow> VertexLimits option" where
  "copyVertexLimits pl v =
     (case pl of
        None \<Rightarrow> v
      | Some p \<Rightarrow>
          let l = (case v of None \<Rightarrow> \<lparr>ReadBatchSize = None, ReadTimeout = None\<rparr> | Some l \<Rightarrow> l) in
          Some \<lparr>ReadBatchSize =
                  (case ReadBatchSize l of Some x \<Rightarrow> Some x | None \<Rightarrow> pl_ReadBatchSize p),
                ReadTimeout =
                  (case ReadTimeout l of Some x \<Rightarrow> Some x | None \<Rightarrow> pl_ReadTimeout p)\<rparr>)"

text \<open>A field of a limits pointer that may be nil: nil has no field set.\<close>

definition vertex_ReadBatchSize :: "VertexLimits option \<Rightarrow> 64 word option" where
  "vertex_ReadBatchSize v = (case v of None \<Rightarrow> None | Some l \<Rightarrow> ReadBatchSize l)"

definition vertex_ReadTimeout :: "VertexLimits option \<Rightarrow> Duration option" where
  "vertex_ReadTimeout v = (case v of None \<Rightarrow> None | Some l \<Rightarrow> ReadTimeout l)"

definition pipeline_ReadBatchSize :: "PipelineLimits option \<Rightarrow> 64 word option" where
  "pipeline_ReadBatchSize pl = (case pl of None \<Rightarrow> None | Some p \<Rightarrow> pl_ReadBatchSize p)"

definition pipeline_ReadTimeout :: "PipelineLimits option \<Rightarrow> Duration option" where
  "pipeline_ReadTimeout pl = (case pl of None \<Rightarrow> None | Some p \<Rightarrow> pl_ReadTimeout p)"

chapter \<open>Properties\<close>

section \<open>Rounding to float64\<close>

text \<open>
  The rounding error of an operation is at most half a unit in the last place, a float64
  of 53 bits or fewer is its own rounding, and rounding keeps the sign.
\<close>

lemma rne_error: "\<bar>of_int (rne q) - q\<bar> \<le> 1 / 2"
proof -
  have "of_int \<lfloor>q\<rfloor> \<le> q" "q < of_int \<lfloor>q\<rfloor> + 1" by linarith+
  then show ?thesis unfolding rne_def Let_def
    by (cases "q - of_int \<lfloor>q\<rfloor> < 1 / 2"; cases "1 / 2 < q - of_int \<lfloor>q\<rfloor>"; cases "even \<lfloor>q\<rfloor>"; simp; linarith)
qed

lemma rne_of_int [simp]: "rne (of_int i) = i"
  by (simp add: rne_def)

lemma rne_nonneg: "0 \<le> q \<Longrightarrow> 0 \<le> rne q"
  unfolding rne_def Let_def by (auto simp: abs_if) 

lemma expo_spec:
  assumes "0 < x"
  shows "2 powi (expo x) \<le> x \<and> x < 2 powi (expo x + 1)"
proof -
  obtain p q where pq: "quotient_of x = (p, q)" by (cases "quotient_of x")
  then have q: "0 < q" and x: "x = of_int p / of_int q"
    using quotient_of_denom_pos quotient_of_div by blast+
  from assms x q have p: "0 < p" by (simp add: zero_less_divide_iff)
  define bp where "bp = bitlen p"
  define bq where "bq = bitlen q"
  have bp1: "1 \<le> bp" and bq1: "1 \<le> bq"
    using p q bitlen_eq_zero_iff[of p] bitlen_eq_zero_iff[of q] bitlen_nonneg[of p] bitlen_nonneg[of q]
    unfolding bp_def bq_def by linarith+
  have P: "(2::int) ^ nat (bp - 1) \<le> p" "p < 2 ^ nat bp"
    using bitlen_bounds[OF p] unfolding bp_def by auto
  have Q: "(2::int) ^ nat (bq - 1) \<le> q" "q < 2 ^ nat bq"
    using bitlen_bounds[OF q] unfolding bq_def by auto
  have Pr: "(2::rat) powi (bp - 1) \<le> of_int p" "of_int p < (2::rat) powi bp"
  proof -
    have "(of_int ((2::int) ^ nat (bp - 1)) :: rat) \<le> of_int p" using P(1) by (simp only: of_int_le_iff)
    then show "(2::rat) powi (bp - 1) \<le> of_int p" using bp1 by (simp add: power_int_def)
    have "(of_int p :: rat) < of_int ((2::int) ^ nat bp)" using P(2) by (simp only: of_int_less_iff)
    then show "of_int p < (2::rat) powi bp" using bp1 by (simp add: power_int_def)
  qed
  have Qr: "(2::rat) powi (bq - 1) \<le> of_int q" "of_int q < (2::rat) powi bq"
  proof -
    have "(of_int ((2::int) ^ nat (bq - 1)) :: rat) \<le> of_int q" using Q(1) by (simp only: of_int_le_iff)
    then show "(2::rat) powi (bq - 1) \<le> of_int q" using bq1 by (simp add: power_int_def)
    have "(of_int q :: rat) < of_int ((2::int) ^ nat bq)" using Q(2) by (simp only: of_int_less_iff)
    then show "of_int q < (2::rat) powi bq" using bq1 by (simp add: power_int_def)
  qed
  have qpos: "(0::rat) < of_int q" using q by simp
  have up: "x < 2 powi (bp - bq + 1)"
  proof -
    have "x * of_int q = of_int p" using x qpos by simp
    also have "\<dots> < 2 powi bp" by (rule Pr(2))
    also have "\<dots> = 2 powi (bp - bq + 1) * 2 powi (bq - 1)"
      by (simp add: power_int_add[symmetric])
    also have "\<dots> \<le> 2 powi (bp - bq + 1) * of_int q"
      using Qr(1) by (intro mult_left_mono) auto
    finally show ?thesis using qpos by simp
  qed
  have lo: "2 powi (bp - bq - 1) \<le> x"
  proof -
    have "(2::rat) powi (bp - bq - 1) * of_int q \<le> 2 powi (bp - bq - 1) * 2 powi bq"
      using Qr(2) by (intro mult_left_mono) auto
    also have "\<dots> = 2 powi (bp - 1)" by (simp add: power_int_add[symmetric])
    also have "\<dots> \<le> of_int p" by (rule Pr(1))
    also have "\<dots> = x * of_int q" using x qpos by simp
    finally show ?thesis using qpos by simp
  qed
  have "expo x = (if 2 powi (bp - bq) \<le> x then bp - bq else bp - bq - 1)"
    unfolding expo_def pq Let_def bp_def bq_def by simp
  then show ?thesis
    using up lo by (auto simp: not_le)
qed

lemma pow2_less_D: "(2::rat) powi a < 2 powi b \<Longrightarrow> a < b"
  using power_int_increasing[of b a "2::rat"] by (cases "a < b") auto

lemma expo_ge:
  assumes "0 < x" "2 powi e \<le> x"
  shows "e \<le> expo x"
proof -
  have "(2::rat) powi e < 2 powi (expo x + 1)" using expo_spec[OF assms(1)] assms(2) by linarith
  then have "e < expo x + 1" by (rule pow2_less_D)
  then show ?thesis by simp
qed

lemma expo_less:
  assumes "0 < x" "x < 2 powi e"
  shows "expo x < e"
proof -
  have "(2::rat) powi (expo x) < 2 powi e" using expo_spec[OF assms(1)] assms(2) by linarith
  then show ?thesis by (rule pow2_less_D)
qed

lemma fl_pos_error:
  assumes "2 powi (- 1022) \<le> x"
  shows "\<bar>fl_pos x - x\<bar> \<le> x * 2 powi (- 53)"
proof -
  have xpos: "0 < x" using assms by (smt (verit) zero_less_power_int zero_less_numeral less_le_trans)
  have e: "- 1022 \<le> expo x" using expo_ge[OF xpos assms] .
  define q where "q = expo x - 52"
  have mq: "max (expo x - 52) (- 1074) = q" unfolding q_def using e by linarith
  have fq: "fl_pos x = of_int (rne (x / 2 powi q)) * 2 powi q"
    unfolding fl_pos_def Let_def mq ..
  have qpos: "(0::rat) < 2 powi q" by simp
  have "\<bar>fl_pos x - x\<bar> = \<bar>of_int (rne (x / 2 powi q)) - x / 2 powi q\<bar> * 2 powi q"
  proof -
    have "fl_pos x - x = (of_int (rne (x / 2 powi q)) - x / 2 powi q) * 2 powi q"
      using qpos unfolding fq by (simp add: field_simps)
    then show ?thesis using qpos by (simp add: abs_mult)
  qed
  also have "\<dots> \<le> (1 / 2) * 2 powi q"
    using rne_error[of "x / 2 powi q"] qpos by (intro mult_right_mono) auto
  also have "\<dots> = 2 powi (expo x) * 2 powi (- 53)"
  proof -
    have a: "(2::rat) powi (expo x) * 2 powi (- 53) = 2 powi (expo x + (- 53))"
      by (rule power_int_add[symmetric]) simp
    have b: "(2::rat) powi q * 2 powi (- 1) = 2 powi (q + (- 1))"
      by (rule power_int_add[symmetric]) simp
    have c: "q + (- 1) = expo x + (- 53)" by (simp add: q_def)
    have "(1 / 2) * (2::rat) powi q = 2 powi q * 2 powi (- 1)" by simp
    then show ?thesis by (simp only: a b c)
  qed
  also have "\<dots> \<le> x * 2 powi (- 53)"
    using expo_spec[OF xpos] by (intro mult_right_mono) auto
  finally show ?thesis .
qed

lemma fl_pos_exact:
  assumes m: "0 < m" "m < 2 ^ 53" and j: "- 1074 \<le> j"
  shows "fl_pos (of_int m * 2 powi j) = of_int m * 2 powi j"
proof -
  define x :: rat where "x = of_int m * 2 powi j"
  have xpos: "0 < x" using m unfolding x_def by simp
  have "x < 2 ^ 53 * 2 powi j"
  proof -
    have "(of_int m :: rat) < of_int (2 ^ 53)" using m(2) by (simp only: of_int_less_iff)
    then show ?thesis unfolding x_def by (intro mult_strict_right_mono) auto
  qed
  also have "\<dots> = 2 powi (53 + j)" by (subst power_int_add) auto
  finally have "expo x < 53 + j" using expo_less[OF xpos] by simp
  define q where "q = max (expo x - 52) (- 1074)"
  have qj: "q \<le> j" unfolding q_def using \<open>expo x < 53 + j\<close> j by simp
  have "x / 2 powi q = of_int m * 2 powi (j - q)"
    unfolding x_def by (simp add: power_int_diff)
  also have "\<dots> = of_int (m * 2 ^ nat (j - q))"
    using qj by (simp add: power_int_def)
  finally have "of_int (rne (x / 2 powi q)) = x / 2 powi q" by (simp only: rne_of_int)
  then have "fl_pos x = x" unfolding fl_pos_def Let_def q_def[symmetric] by simp
  then show ?thesis unfolding x_def .
qed

lemma fl_pos_nonneg: "0 \<le> x \<Longrightarrow> 0 \<le> fl_pos x"
  unfolding fl_pos_def Let_def by (intro mult_nonneg_nonneg) (auto intro!: rne_nonneg)

lemma fl_nonneg: "0 \<le> x \<Longrightarrow> 0 \<le> fl x"
  unfolding fl_def using fl_pos_nonneg[of x] by auto

lemma fl_nonpos: "x \<le> 0 \<Longrightarrow> fl x \<le> 0"
  unfolding fl_def using fl_pos_nonneg[of "- x"] by auto

lemma fl_of_int:
  assumes "\<bar>n\<bar> < 2 ^ 53"
  shows "fl (of_int n) = of_int n"
proof -
  consider "n = 0" | "0 < n" | "n < 0" by linarith
  then show ?thesis
  proof cases
    case 1 then show ?thesis by (simp add: fl_def)
  next
    case 2
    then have "fl_pos (of_int n * 2 powi 0) = of_int n * 2 powi 0"
      using assms by (intro fl_pos_exact) auto
    then show ?thesis using 2 by (simp add: fl_def)
  next
    case 3
    then have "fl_pos (of_int (- n) * 2 powi 0) = of_int (- n) * 2 powi 0"
      using assms by (intro fl_pos_exact) auto
    then show ?thesis using 3 by (simp add: fl_def)
  qed
qed

lemma fl_half_int:
  assumes "0 \<le> n" "n < 2 ^ 53"
  shows "fl (of_int n / 2) = of_int n / 2"
proof (cases "n = 0")
  case True then show ?thesis by (simp add: fl_def)
next
  case False
  then have "fl_pos (of_int n * 2 powi (- 1)) = of_int n * 2 powi (- 1)"
    using assms by (intro fl_pos_exact) auto
  then show ?thesis using False assms by (simp add: fl_def field_simps)
qed

lemma fl_error:
  assumes "2 powi (- 1022) \<le> x"
  shows "\<bar>fl x - x\<bar> \<le> x * 2 powi (- 53)"
proof -
  have "0 < x" using assms by (smt (verit) zero_less_power_int zero_less_numeral less_le_trans)
  then show ?thesis using fl_pos_error[OF assms] by (simp add: fl_def)
qed


lemma fl_pos_half_ulp:
  assumes "0 < x"
  shows "\<bar>fl_pos x - x\<bar> \<le> 2 powi (max (expo x - 52) (- 1074)) / 2"
proof -
  define q where "q = max (expo x - 52) (- 1074)"
  have fq: "fl_pos x = of_int (rne (x / 2 powi q)) * 2 powi q"
    unfolding fl_pos_def Let_def q_def ..
  have qpos: "(0::rat) < 2 powi q" by simp
  have "fl_pos x - x = (of_int (rne (x / 2 powi q)) - x / 2 powi q) * 2 powi q"
    using qpos unfolding fq by (simp add: field_simps)
  then have "\<bar>fl_pos x - x\<bar> = \<bar>of_int (rne (x / 2 powi q)) - x / 2 powi q\<bar> * 2 powi q"
    using qpos by (simp add: abs_mult)
  also have "\<dots> \<le> (1 / 2) * 2 powi q"
    using rne_error[of "x / 2 powi q"] qpos by (intro mult_right_mono) auto
  finally show ?thesis unfolding q_def by simp
qed

lemma fl_pos_err:
  assumes "0 < x"
  shows "\<bar>fl_pos x - x\<bar> \<le> (x + 1) * 2 powi (- 53)"
proof (cases "- 1074 \<le> expo x - 52")
  case True
  then have m: "max (expo x - 52) (- 1074) = expo x - 52" by linarith
  have a: "(2::rat) powi (expo x) * 2 powi (- 53) = 2 powi (expo x + (- 53))"
    by (rule power_int_add[symmetric]) simp
  have b: "(2::rat) powi (expo x - 52) * 2 powi (- 1) = 2 powi (expo x - 52 + (- 1))"
    by (rule power_int_add[symmetric]) simp
  have c: "expo x - 52 + (- 1) = expo x + (- 53)" by simp
  have "(2::rat) powi (expo x - 52) / 2 = 2 powi (expo x - 52) * 2 powi (- 1)" by simp
  then have "(2::rat) powi (expo x - 52) / 2 = 2 powi (expo x) * 2 powi (- 53)"
    by (simp only: a b c)
  also have "\<dots> \<le> x * 2 powi (- 53)"
    using expo_spec[OF assms] by (intro mult_right_mono) auto
  also have "\<dots> \<le> (x + 1) * 2 powi (- 53)"
    by (intro mult_right_mono) auto
  finally show ?thesis using fl_pos_half_ulp[OF assms] unfolding m by linarith
next
  case False
  then have m: "max (expo x - 52) (- 1074) = - 1074" by linarith
  have b: "(2::rat) powi (- 1074) * 2 powi (- 1) = 2 powi (- 1074 + (- 1))"
    by (rule power_int_add[symmetric]) simp
  have "(2::rat) powi (- 1074) / 2 = 2 powi (- 1074) * 2 powi (- 1)" by simp
  then have "(2::rat) powi (- 1074) / 2 = 2 powi (- 1075)" by (simp only: b) simp
  also have "\<dots> \<le> 2 powi (- 53)" by (rule power_int_increasing) auto
  also have "\<dots> \<le> (x + 1) * 2 powi (- 53)" using assms by simp
  finally show ?thesis using fl_pos_half_ulp[OF assms] unfolding m by linarith
qed

lemma fl_err: "\<bar>fl x - x\<bar> \<le> (\<bar>x\<bar> + 1) * 2 powi (- 53)"
proof -
  consider "x = 0" | "0 < x" | "x < 0" by linarith
  then show ?thesis
  proof cases
    case 1 then show ?thesis by (simp add: fl_def)
  next
    case 2 then show ?thesis using fl_pos_err[of x] by (simp add: fl_def)
  next
    case 3
    have "\<bar>- fl_pos (- x) - x\<bar> = \<bar>- (fl_pos (- x) - (- x))\<bar>" by simp
    also have "\<dots> = \<bar>fl_pos (- x) - (- x)\<bar>" by (rule abs_minus_cancel)
    also have "\<dots> \<le> (- x + 1) * 2 powi (- 53)" using 3 by (intro fl_pos_err) simp
    finally show ?thesis using 3 by (simp add: fl_def)
  qed
qed


lemma sdiv_smod_Second:
  "d sdiv Second * Second + d smod Second = d"
  by (rule sdiv_mult_smod_eq)

lemma sdiv_smod_nonneg:
  assumes "0 \<le> d"
  shows "d sdiv Second = d div Second" "d smod Second = d mod Second"
  using assms by (simp_all add: signed_divide_int_def signed_modulo_int_def Second_def sgn_if)

lemma sdiv_smod_nonpos:
  assumes "d \<le> 0"
  shows "d sdiv Second \<le> 0" "d smod Second \<le> 0"
  using assms by (simp_all add: signed_divide_int_def signed_modulo_int_def Second_def sgn_if
      mult_le_0_iff pos_imp_zdiv_nonneg_iff)

section \<open>Seconds and the tick of the constructor\<close>

lemma fl_err_num: "\<bar>fl x - x\<bar> \<le> (\<bar>x\<bar> + 1) / 9007199254740992"
  using fl_err[of x] by simp

lemma Seconds_unfold:
  assumes "- (2 ^ 63) \<le> d" "d < 2 ^ 63"
  shows "Seconds d = fl (of_int (d sdiv Second) + fl (of_int (d smod Second) / 1000000000))"
proof -
  have "\<bar>d sdiv Second\<bar> \<le> \<bar>d\<bar> div 1000000000"
    by (simp add: signed_divide_int_def Second_def abs_mult abs_sgn_eq)
  also have "\<dots> \<le> 2 ^ 63 div 1000000000"
    using assms by (intro zdiv_mono1) auto
  finally have s: "\<bar>d sdiv Second\<bar> < 2 ^ 53" by simp
  have "\<bar>d smod Second\<bar> \<le> \<bar>d\<bar> mod 1000000000"
    by (simp add: signed_modulo_int_def Second_def abs_mult abs_sgn_eq)
  also have "\<dots> < 1000000000" by simp
  finally have n: "\<bar>d smod Second\<bar> < 2 ^ 53" by simp
  show ?thesis
    unfolding Seconds_def Let_def float64_of_int_def fadd_def fdiv_def
    using fl_of_int[OF s] fl_of_int[OF n] by simp
qed

lemma Seconds_nonpos:
  assumes "- (2 ^ 63) \<le> d" "d \<le> 0"
  shows "Seconds d \<le> 0"
proof -
  have d: "d < 2 ^ 63" using assms(2) by simp
  have "(of_int (d smod Second) :: rat) / 1000000000 \<le> 0"
    using sdiv_smod_nonpos(2)[OF assms(2)] by (simp add: divide_le_0_iff)
  then have "fl (of_int (d smod Second) / 1000000000) \<le> 0" by (rule fl_nonpos)
  moreover have "(of_int (d sdiv Second) :: rat) \<le> 0"
    using sdiv_smod_nonpos(1)[OF assms(2)] by simp
  ultimately show ?thesis
    unfolding Seconds_unfold[OF assms(1) d] by (intro fl_nonpos) linarith
qed

text \<open>For a duration that is not negative, Seconds is the exact quotient up to rounding.\<close>

lemma Seconds_facts:
  assumes "0 \<le> d" "d < 2 ^ 63"
  defines "t \<equiv> (of_int d :: rat) / 1000000000"
  shows "\<bar>Seconds d - t\<bar> \<le> (t + 4) / 9007199254740992" and "0 \<le> Seconds d"
proof -
  define sec where "sec = d div Second"
  define nsec where "nsec = d mod Second"
  define ys :: rat where "ys = of_int nsec / 1000000000"
  define y where "y = fl ys"
  have d: "d = sec * 1000000000 + nsec" unfolding sec_def nsec_def Second_def by simp
  have n: "0 \<le> nsec" "nsec < 1000000000" unfolding nsec_def Second_def by simp_all
  have s: "0 \<le> sec" unfolding sec_def Second_def using assms(1) by (simp add: pos_imp_zdiv_nonneg_iff)
  have ys: "0 \<le> ys" "ys < 1" unfolding ys_def using n by simp_all
  have t: "t = of_int sec + ys" unfolding t_def ys_def by (simp add: d)
  have y0: "0 \<le> y" unfolding y_def using ys(1) by (rule fl_nonneg)
  have ye: "\<bar>y - ys\<bar> \<le> (\<bar>ys\<bar> + 1) / 9007199254740992" unfolding y_def by (rule fl_err_num)
  have S: "Seconds d = fl (of_int sec + y)"
    using Seconds_unfold[of d] assms(1,2) sdiv_smod_nonneg[OF assms(1)]
    unfolding sec_def nsec_def y_def ys_def by simp
  have x0: "0 \<le> of_int sec + y" using s y0 by simp
  have Se: "\<bar>fl (of_int sec + y) - (of_int sec + y)\<bar> \<le> (\<bar>of_int sec + y\<bar> + 1) / 9007199254740992"
    by (rule fl_err_num)
  have s': "(0::rat) \<le> of_int sec" using s by simp
  show "\<bar>Seconds d - t\<bar> \<le> (t + 4) / 9007199254740992"
    unfolding S t using ye Se ys y0 s' by (simp add: abs_if split: if_splits) 
  show "0 \<le> Seconds d" unfolding S using x0 by (rule fl_nonneg)
qed

lemma Seconds_gt_one_iff:
  assumes "- (2 ^ 63) \<le> d" "d < 2 ^ 63"
  shows "1 < Seconds d \<longleftrightarrow> Second < d"
proof -
  consider "d \<le> 0" | "0 < d" "d < Second" | "d = Second" | "Second < d" by linarith
  then show ?thesis
  proof cases
    case 1
    then show ?thesis using Seconds_nonpos[OF assms(1)] by (simp add: Second_def)
  next
    case 2
    then have "(of_int d :: rat) \<le> 999999999" by (simp add: Second_def)
    then have "(of_int d :: rat) / 1000000000 \<le> 999999999 / 1000000000" by simp
    then show ?thesis
      using Seconds_facts(1)[of d] 2 assms(2) by (simp add: abs_if split: if_splits)
  next
    case 3
    have "Seconds d = fl (of_int (d sdiv Second) + fl (of_int (d smod Second) / 1000000000))"
      using assms by (rule Seconds_unfold)
    also have "\<dots> = fl (of_int 1)"
      unfolding 3 by (simp add: Second_def signed_divide_int_def signed_modulo_int_def fl_def)
    also have "\<dots> = of_int 1" by (rule fl_of_int) simp
    finally show ?thesis using 3 by simp
  next
    case 4
    then have "(1000000001 :: rat) \<le> of_int d" by (simp add: Second_def)
    then have "(1000000001 :: rat) / 1000000000 \<le> of_int d / 1000000000" by simp
    then show ?thesis
      using Seconds_facts(1)[of d] 4 assms(2) by (simp add: abs_if Second_def split: if_splits)
  qed
qed

text \<open>The float64 value that the constructor truncates.\<close>

lemma tick_float_facts:
  assumes "0 \<le> d" "d < 2 ^ 63"
  defines "t \<equiv> (of_int d :: rat) / 1000000000"
  defines "g \<equiv> fdiv (fmul (Seconds d) 2) 3"
  shows "\<bar>g - 2 * t / 3\<bar> \<le> (2 * t + 6) / 9007199254740992" and "0 \<le> g"
proof -
  define S where "S = Seconds d"
  define U where "U = fl (S * 2)"
  have g: "g = fl (U / 3)" unfolding g_def U_def S_def fmul_def fdiv_def ..
  have t0: "0 \<le> t" unfolding t_def using assms(1) by simp
  have "(of_int d :: rat) \<le> of_int (2 ^ 63)" using assms(2) by (simp only: of_int_le_iff)
  then have t1: "t \<le> 9223372037" unfolding t_def by simp
  have Se: "\<bar>S - t\<bar> \<le> (t + 4) / 9007199254740992" and S0: "0 \<le> S"
    unfolding S_def t_def using Seconds_facts[OF assms(1,2)] by auto
  have Ue: "\<bar>U - S * 2\<bar> \<le> (\<bar>S * 2\<bar> + 1) / 9007199254740992"
    unfolding U_def by (rule fl_err_num)
  have U0: "0 \<le> U" unfolding U_def using S0 by (intro fl_nonneg) simp
  have ge: "\<bar>g - U / 3\<bar> \<le> (\<bar>U / 3\<bar> + 1) / 9007199254740992"
    unfolding g by (rule fl_err_num)
  show "0 \<le> g" unfolding g using U0 by (intro fl_nonneg) simp
  have S1: "S \<le> t + 1 / 4" using Se t0 t1 by (simp add: abs_if split: if_splits)
  have U1: "U \<le> 2 * t + 1" using Ue S1 S0 t0 t1 by (simp add: abs_if split: if_splits)
  have Ut: "\<bar>U - 2 * t\<bar> \<le> (4 * t + 10) / 9007199254740992"
    using Ue Se S1 S0 t0 by (simp add: abs_if split: if_splits)
  show "\<bar>g - 2 * t / 3\<bar> \<le> (2 * t + 6) / 9007199254740992"
    using ge Ut U1 U0 t0 by (simp add: abs_if split: if_splits)
qed

lemma tick_float_nonpos:
  assumes "- (2 ^ 63) \<le> d" "d \<le> 0"
  shows "fdiv (fmul (Seconds d) 2) 3 \<le> 0"
proof -
  have "Seconds d * 2 \<le> 0" using Seconds_nonpos[OF assms] by simp
  then have "fl (Seconds d * 2) \<le> 0" by (rule fl_nonpos)
  then have "fl (Seconds d * 2) / 3 \<le> 0" by simp
  then show ?thesis unfolding fdiv_def fmul_def by (rule fl_nonpos)
qed

lemma int64_of_float_nonpos: "g \<le> 0 \<Longrightarrow> int64_of_float g \<le> 0"
  unfolding int64_of_float_def by (auto simp: ceiling_le_zero intro: order_trans)

lemma tick_float_exact:
  assumes "0 \<le> d" "d < 2 ^ 63" "2 * d = 3000000000 * k"
  shows "fdiv (fmul (Seconds d) 2) 3 = of_int k"
proof -
  define sec where "sec = d div Second"
  define nsec where "nsec = d mod Second"
  have d: "d = sec * 1000000000 + nsec" unfolding sec_def nsec_def Second_def by simp
  have n: "0 \<le> nsec" "nsec < 1000000000" unfolding nsec_def Second_def by simp_all
  have k0: "0 \<le> k" using assms(1,3) by linarith
  have k1: "3 * k < 2 ^ 53" using assms(2,3) by simp
  define m where "m = 3 * k - 2 * sec"
  have m: "2 * nsec = 1000000000 * m" unfolding m_def using d assms(3) by simp
  have m0: "0 \<le> m" "m < 2 ^ 53" using m n by simp_all
  have "(of_int nsec :: rat) / 1000000000 = of_int m / 2"
  proof -
    have "(of_int (2 * nsec) :: rat) = of_int (1000000000 * m)" using m by (simp only:)
    then show ?thesis by simp
  qed
  then have y: "fl (of_int nsec / 1000000000) = of_int m / 2"
    using fl_half_int[OF m0] by simp
  have x: "(of_int sec :: rat) + of_int m / 2 = of_int (3 * k) / 2"
    unfolding m_def by (simp add: field_simps)
  have S: "Seconds d = of_int (3 * k) / 2"
  proof -
    have "Seconds d = fl (of_int sec + fl (of_int nsec / 1000000000))"
      using Seconds_unfold[of d] assms(1,2) sdiv_smod_nonneg[OF assms(1)]
      unfolding sec_def nsec_def by simp
    also have "\<dots> = fl (of_int (3 * k) / 2)" unfolding y x ..
    also have "\<dots> = of_int (3 * k) / 2" using k0 k1 by (intro fl_half_int) auto
    finally show ?thesis .
  qed
  have U: "fmul (Seconds d) 2 = of_int (3 * k)"
  proof -
    have "fmul (Seconds d) 2 = fl (of_int (3 * k))" unfolding fmul_def S by simp
    also have "\<dots> = of_int (3 * k)" using k0 k1 by (intro fl_of_int) auto
    finally show ?thesis .
  qed
  have "fdiv (fmul (Seconds d) 2) 3 = fl (of_int k)" unfolding fdiv_def U by simp
  also have "\<dots> = of_int k" using k0 k1 by (intro fl_of_int) auto
  finally show ?thesis .
qed

lemma inProgessTickSeconds_exact:
  assumes "- (2 ^ 63) \<le> d" "d \<le> 1000000000000000"
  shows "inProgessTickSeconds d = max 1 ((2 * d) div 3000000000)"
proof -
  define g where "g = fdiv (fmul (Seconds d) 2) 3"
  define k where "k = (2 * d) div 3000000000"
  define r where "r = (2 * d) mod 3000000000"
  have its: "inProgessTickSeconds d = (if int64_of_float g < 1 then 1 else int64_of_float g)"
    unfolding inProgessTickSeconds_def g_def Let_def ..
  consider "d \<le> 0" | "0 < d" "r = 0" | "0 < d" "r \<noteq> 0" by linarith
  then show ?thesis
  proof cases
    case 1
    have "int64_of_float g \<le> 0"
      unfolding g_def using tick_float_nonpos[OF assms(1) 1] by (rule int64_of_float_nonpos)
    moreover have "k \<le> 0"
    proof -
      have "(2 * d) div 3000000000 \<le> 0 div 3000000000" using 1 by (intro zdiv_mono1) auto
      then show ?thesis unfolding k_def by simp
    qed
    ultimately show ?thesis unfolding its k_def[symmetric] by simp
  next
    case 2
    have "2 * d = 3000000000 * k" using 2(2) unfolding k_def r_def by auto
    then have "g = of_int k" unfolding g_def using 2(1) assms(2) by (intro tick_float_exact) auto
    moreover have "0 \<le> k" unfolding k_def using 2(1) by (simp add: pos_imp_zdiv_nonneg_iff)
    ultimately have "int64_of_float g = k" by (simp add: int64_of_float_def)
    then show ?thesis unfolding its k_def[symmetric] by simp
  next
    case 3
    define t where "t = (of_int d :: rat) / 1000000000"
    have d2: "d < 2 ^ 63" using assms(2) by simp
    have ge: "\<bar>g - 2 * t / 3\<bar> \<le> (2 * t + 6) / 9007199254740992" and g0: "0 \<le> g"
      unfolding g_def t_def using tick_float_facts[of d] 3(1) d2 by auto
    have "(of_int d :: rat) \<le> of_int 1000000000000000" using assms(2) by (simp only: of_int_le_iff)
    then have t1: "t \<le> 1000000" unfolding t_def by simp
    have t0: "0 \<le> t" unfolding t_def using 3(1) by simp
    have r: "1 \<le> r" "r \<le> 2999999999" unfolding r_def using 3(2) r_def
      by (simp_all add: order_less_le)
    have "2 * d = 3000000000 * k + r"
      unfolding k_def r_def by (rule mult_div_mod_eq[symmetric])
    then have "(of_int (2 * d) :: rat) = of_int (3000000000 * k + r)" by (simp only:)
    then have tk: "2 * t / 3 = of_int k + of_int r / 3000000000" unfolding t_def by simp
    have r1: "(1::rat) / 3000000000 \<le> of_int r / 3000000000"
      "(of_int r :: rat) / 3000000000 \<le> 2999999999 / 3000000000"
      using r by simp_all
    have "of_int k \<le> g" "g < of_int k + 1"
      using ge tk r1 t0 t1 by (simp_all add: abs_if split: if_splits)
    then have "\<lfloor>g\<rfloor> = k" by linarith
    then have "int64_of_float g = k" using g0 by (simp add: int64_of_float_def)
    then show ?thesis unfolding its k_def[symmetric] by simp
  qed
qed

lemma inProgessTickSeconds_bounds:
  assumes "- (2 ^ 63) \<le> d" "d < 2 ^ 63"
  shows "1 \<le> inProgessTickSeconds d" "inProgessTickSeconds d \<le> 6148914693"
proof -
  define g where "g = fdiv (fmul (Seconds d) 2) 3"
  have its: "inProgessTickSeconds d = (if int64_of_float g < 1 then 1 else int64_of_float g)"
    unfolding inProgessTickSeconds_def g_def Let_def ..
  show "1 \<le> inProgessTickSeconds d" unfolding its by simp
  show "inProgessTickSeconds d \<le> 6148914693"
  proof (cases "d \<le> 0")
    case True
    have "int64_of_float g \<le> 0"
      unfolding g_def using tick_float_nonpos[OF assms(1) True] by (rule int64_of_float_nonpos)
    then show ?thesis unfolding its by simp
  next
    case False
    define t where "t = (of_int d :: rat) / 1000000000"
    have ge: "\<bar>g - 2 * t / 3\<bar> \<le> (2 * t + 6) / 9007199254740992" and g0: "0 \<le> g"
      unfolding g_def t_def using tick_float_facts[of d] False assms(2) by auto
    have "(of_int d :: rat) \<le> of_int (2 ^ 63)" using assms(2) by (simp only: of_int_le_iff)
    then have t1: "t \<le> 9223372037" unfolding t_def by simp
    have t0: "0 \<le> t" unfolding t_def using False by simp
    have "g < 6148914693" using ge t0 t1 by (simp add: abs_if split: if_splits)
    then have "\<lfloor>g\<rfloor> < 6148914693" by linarith
    then show ?thesis unfolding its using g0 by (simp add: int64_of_float_def)
  qed
qed

lemma int64_id: "- (2 ^ 63) \<le> i \<Longrightarrow> i < 2 ^ 63 \<Longrightarrow> int64 i = i"
  unfolding int64_def by (simp add: mod_pos_pos_trivial)

lemma tick_duration_no_wrap:
  assumes "- (2 ^ 63) \<le> d" "d < 2 ^ 63"
  shows "int64 (inProgessTickSeconds d * int64 Second) = inProgessTickSeconds d * Second"
proof -
  have s: "int64 Second = Second" by (rule int64_id) (simp_all add: Second_def)
  have "1 \<le> inProgessTickSeconds d" "inProgessTickSeconds d \<le> 6148914693"
    using inProgessTickSeconds_bounds[OF assms] by auto
  then have "- (2 ^ 63) \<le> inProgessTickSeconds d * Second" "inProgessTickSeconds d * Second < 2 ^ 63"
    by (simp_all add: Second_def)
  then show ?thesis unfolding s by (rule int64_id)
qed

lemma constructor_success:
  assumes "NewJetStreamBufferReader env ro0 name stream subject opts = (Inr jr, c)"
  shows "\<exists>ackWait. env_ConsumerInfo env = Inr ackWait
     \<and> inProgessTickDuration jr = int64 (inProgessTickSeconds ackWait * int64 Second)"
  using assms unfolding NewJetStreamBufferReader_def
  by (auto split: prod.splits option.splits sum.splits)

lemma tick_example: "inProgessTickSeconds 16777216499999999 = 11184811"
  by code_simp

text \<open>
  C1, as stated, fails: for an ackWait of 16777216.499999999 seconds the float64 sum in
  \<^verbatim>\<open>Seconds()\<close> rounds up to 16777216.5, and the tick is 11184811 seconds, one more
  than the floor of two thirds of the ackWait.
\<close>

theorem tick_is_floor_counterexample:
  "fst (NewJetStreamBufferReader (example_env 16777216499999999)
     \<lparr>readTimeOut = Second\<rparr> ''reader'' ''stream'' ''subject'' [])
   = Inr \<lparr>jr_name = ''reader'', jr_stream = ''stream'', jr_subject = ''subject'',
          jr_opts = \<lparr>readTimeOut = Second\<rparr>, inProgessTickDuration = 11184811000000000\<rparr>
   \<and> max 1 ((2 * 16777216499999999) div (3 * Second)) * Second = 11184810000000000"
proof -
  have "int64 (inProgessTickSeconds 16777216499999999 * int64 Second) = 11184811000000000"
    by (subst tick_duration_no_wrap) (simp_all add: tick_example Second_def)
  then show ?thesis
    by (simp add: NewJetStreamBufferReader_def connectAndSubscribe_def example_env_def)
      (simp add: Second_def)
qed

text \<open>
  C1, amended. At reader construction, for every ackWait of the server (an int64 count
  of nanoseconds) the tick is a whole number of seconds and never below one second; for
  every ackWait up to \<open>10^15\<close> nanoseconds (a million seconds) it is
  \<open>max(1s, floor(ackWait * 2/3))\<close> in whole seconds.
\<close>

theorem inProgessTickDuration_of_ackWait:
  assumes "NewJetStreamBufferReader env ro0 name stream subject opts = (Inr jr, c)"
    and "env_ConsumerInfo env = Inr ackWait"
    and "- (2 ^ 63) \<le> ackWait" and "ackWait < 2 ^ 63"
  shows "Second \<le> inProgessTickDuration jr
    \<and> Second dvd inProgessTickDuration jr
    \<and> (ackWait \<le> 1000000000000000 \<longrightarrow>
         inProgessTickDuration jr = max 1 ((2 * ackWait) div (3 * Second)) * Second)"
proof -
  have tick: "inProgessTickDuration jr = inProgessTickSeconds ackWait * Second"
    using constructor_success[OF assms(1)] assms(2) tick_duration_no_wrap[OF assms(3,4)] by auto
  have "1 \<le> inProgessTickSeconds ackWait"
    using inProgessTickSeconds_bounds(1)[OF assms(3,4)] .
  then have "1 * Second \<le> inProgessTickSeconds ackWait * Second"
    by (intro mult_right_mono) (simp_all add: Second_def)
  then have a: "Second \<le> inProgessTickDuration jr" unfolding tick by simp
  have b: "Second dvd inProgessTickDuration jr" unfolding tick by simp
  have c: "inProgessTickDuration jr = max 1 ((2 * ackWait) div (3 * Second)) * Second"
    if "ackWait \<le> 1000000000000000"
    unfolding tick using inProgessTickSeconds_exact[OF assms(3) that] by (simp add: Second_def)
  from a b c show ?thesis by blast
qed

theorem inProgessTickDuration_of_ackWait_witness:
  "fst (NewJetStreamBufferReader
     \<lparr>env_Connect = None, env_JetStream = None, env_PullSubscribe = None,
      env_ConsumerInfo = Inr 3000000000\<rparr>
     \<lparr>readTimeOut = Second\<rparr> ''reader'' ''stream'' ''subject'' [])
   = Inr \<lparr>jr_name = ''reader'', jr_stream = ''stream'', jr_subject = ''subject'',
          jr_opts = \<lparr>readTimeOut = Second\<rparr>, inProgessTickDuration = 2000000000\<rparr>"
proof -
  let ?env = "\<lparr>env_Connect = None, env_JetStream = None, env_PullSubscribe = None,
      env_ConsumerInfo = Inr 3000000000\<rparr>"
  let ?jr = "\<lparr>jr_name = ''reader'', jr_stream = ''stream'', jr_subject = ''subject'',
      jr_opts = \<lparr>readTimeOut = Second\<rparr>,
      inProgessTickDuration = int64 (inProgessTickSeconds 3000000000 * int64 Second)\<rparr>"
  have run: "NewJetStreamBufferReader ?env \<lparr>readTimeOut = Second\<rparr> ''reader'' ''stream''
      ''subject'' [] = (Inr ?jr, ConnOpen)"
    by (simp add: NewJetStreamBufferReader_def connectAndSubscribe_def)
  have "inProgessTickDuration ?jr = max 1 ((2 * 3000000000) div (3 * Second)) * Second"
    using inProgessTickDuration_of_ackWait[OF run, of 3000000000] by simp
  then have "int64 (inProgessTickSeconds 3000000000 * int64 Second) = 2000000000"
    by (simp add: Second_def)
  then show ?thesis using run by simp
qed

section \<open>Acknowledging one offset\<close>

lemma errors_Is_refl [simp]: "errors_Is e e"
  by (cases e) simp_all

lemma AckIt_coerced:
  assumes "AckSync (broker w1) (msg off) = (Some e, b')"
    and "errors_Is e ErrMsgAlreadyAckd \<or> errors_Is e ErrMsgNotFound"
    and "(if cancelFunc off \<noteq> None then call_cancel (cancelFunc off) w else Inr w) = Inr w1"
  shows "AckIt AckSync off w = Inr (None, w1\<lparr>broker := b'\<rparr>)"
  using assms by (auto simp: AckIt_def Let_def)

lemma cancel_ctx_broker [simp]: "broker (cancel_ctx c w) = broker w"
  by (simp add: cancel_ctx_def split: option.split)

lemma AckIt_guard:
  "\<exists>w1. (if cancelFunc off \<noteq> None then call_cancel (cancelFunc off) w else Inr w) = Inr w1
     \<and> broker w1 = broker w"
  by (cases "cancelFunc off") (simp_all add: call_cancel_def)

lemma AckIt_total: "\<exists>r w'. AckIt AckSync off w = Inr (r, w')"
proof -
  obtain w1 where w1: "(if cancelFunc off \<noteq> None then call_cancel (cancelFunc off) w else Inr w) = Inr w1"
    using AckIt_guard by blast
  obtain err b' where a: "AckSync (broker w1) (msg off) = (err, b')"
    by (cases "AckSync (broker w1) (msg off)")
  show ?thesis
    unfolding AckIt_def w1 using a by (cases err) (auto simp: Let_def)
qed

text \<open>
  C4. Whenever the broker answers the ack with an error that is (or wraps)
  \<^verbatim>\<open>ErrMsgAlreadyAckd\<close> or \<^verbatim>\<open>ErrMsgNotFound\<close>, \<^verbatim>\<open>AckIt\<close> returns nil, whether or
  not the offset has a heartbeat. In particular, when a first \<^verbatim>\<open>AckIt\<close> has run and the
  broker answers the second ack of the same offset with \<^verbatim>\<open>ErrMsgAlreadyAckd\<close>, the second
  \<^verbatim>\<open>AckIt\<close> returns nil as well.
\<close>

theorem AckIt_already_ackd_is_success:
  fixes AckSync :: "'b \<Rightarrow> Msg \<Rightarrow> error option \<times> 'b"
  shows "(fst (AckSync (broker w) (msg off)) = Some e
            \<and> (errors_Is e ErrMsgAlreadyAckd \<or> errors_Is e ErrMsgNotFound)
          \<longrightarrow> (\<exists>w'. AckIt AckSync off w = Inr (None, w')))
       \<and> (AckIt AckSync off w = Inr (r1, w1)
            \<and> fst (AckSync (broker w1) (msg off)) = Some ErrMsgAlreadyAckd
          \<longrightarrow> (\<exists>w2. AckIt AckSync off w1 = Inr (None, w2)))"
proof -
  have gen: "\<exists>w'. AckIt AckSync off v = Inr (None, w')"
    if "fst (AckSync (broker v) (msg off)) = Some e'"
      and "errors_Is e' ErrMsgAlreadyAckd \<or> errors_Is e' ErrMsgNotFound"
    for v :: "'b world" and e'
  proof -
    obtain v1 where v1: "(if cancelFunc off \<noteq> None then call_cancel (cancelFunc off) v else Inr v) = Inr v1"
      and b: "broker v1 = broker v"
      using AckIt_guard by blast
    have "\<exists>b'. AckSync (broker v1) (msg off) = (Some e', b')"
      using that(1) b by (cases "AckSync (broker v) (msg off)") auto
    then obtain b' where b': "AckSync (broker v1) (msg off) = (Some e', b')" ..
    have "AckIt AckSync off v = Inr (None, v1\<lparr>broker := b'\<rparr>)"
      using b' that(2) v1 by (rule AckIt_coerced)
    then show ?thesis by blast
  qed
  show ?thesis
    using gen[of w e] gen[of w1 ErrMsgAlreadyAckd] by auto
qed

theorem AckIt_already_ackd_is_success_witness:
  "AckIt example_AckSync \<lparr>seq = 7, msg = example_msg 7, cancelFunc = None\<rparr> example_world
     = Inr (None, example_world\<lparr>broker := [7]\<rparr>)
   \<and> fst (example_AckSync (broker (example_world\<lparr>broker := [7]\<rparr>)) (example_msg 7))
       = Some ErrMsgAlreadyAckd
   \<and> (\<exists>w2. AckIt example_AckSync \<lparr>seq = 7, msg = example_msg 7, cancelFunc = None\<rparr>
          (example_world\<lparr>broker := [7]\<rparr>) = Inr (None, w2))"
proof -
  let ?off = "\<lparr>seq = 7, msg = example_msg 7, cancelFunc = None\<rparr>"
  let ?w1 = "example_world\<lparr>broker := [7 :: 64 word]\<rparr>"
  have a: "AckIt example_AckSync ?off example_world = Inr (None, ?w1)"
    by (simp add: AckIt_def example_AckSync_def example_msg_def example_world_def)
  have b: "fst (example_AckSync (broker ?w1) (msg ?off)) = Some ErrMsgAlreadyAckd"
    by (simp add: example_AckSync_def example_msg_def example_world_def)
  from AckIt_already_ackd_is_success[of example_AckSync example_world ?off ErrMsgAlreadyAckd None ?w1]
    a b show ?thesis by simp
qed

text \<open>
  C10. \<^verbatim>\<open>AckIt\<close> on an offset whose cancel function is nil does not panic: the nil
  function is never called, the heartbeat table is untouched, and the broker round trip
  gives the same error and the same broker state as for the same offset with a heartbeat.
\<close>

theorem AckIt_nil_cancel_safe:
  "(\<exists>r w'. AckIt AckSync (off\<lparr>cancelFunc := None\<rparr>) w = Inr (r, w')
      \<and> heartbeats w' = heartbeats w
      \<and> (r, broker w') =
          (let (err, b') = AckSync (broker w) (msg off) in
           ((case err of None \<Rightarrow> None
             | Some e \<Rightarrow> if errors_Is e ErrMsgAlreadyAckd \<or> errors_Is e ErrMsgNotFound
                 then None else Some e), b'))
      \<and> (\<exists>w''. AckIt AckSync (off\<lparr>cancelFunc := Some c\<rparr>) w = Inr (r, w'')
            \<and> broker w'' = broker w'))"
proof -
  obtain err b' where a: "AckSync (broker w) (msg off) = (err, b')"
    by (cases "AckSync (broker w) (msg off)")
  show ?thesis
    using a by (cases err) (auto simp: AckIt_def Let_def call_cancel_def)
qed


section \<open>Read\<close>

text \<open>
  C2. For every count: when the fetch fails with a timeout (the client then hands back no
  message, with an error that is or wraps \<^verbatim>\<open>ErrTimeout\<close>), \<^verbatim>\<open>Read\<close> returns an empty
  slice and a nil error and leaves the world as it was; whatever comes with a timeout,
  \<^verbatim>\<open>Read\<close> never returns it as an error; when the fetch fails with any other error,
  \<^verbatim>\<open>Read\<close> returns no message and an error that wraps the broker's, and counts it on
  the buffer's error counter.
\<close>

theorem Read_timeout_is_not_an_error:
  "(Fetch count (readTimeOut (jr_opts jr)) = ([], Some e) \<and> errors_Is e ErrTimeout
      \<longrightarrow> Read keys Fetch jr count w = Inr (([], None), w))
   \<and> (Fetch count (readTimeOut (jr_opts jr)) = (msgs, Some e) \<and> errors_Is e ErrTimeout
        \<and> Read keys Fetch jr count w = Inr ((res, rerr), w')
      \<longrightarrow> rerr = None)
   \<and> (Fetch count (readTimeOut (jr_opts jr)) = (msgs, Some e) \<and> \<not> errors_Is e ErrTimeout
      \<longrightarrow> (\<exists>err w'. Read keys Fetch jr count w = Inr (([], Some err), w')
             \<and> errors_Is err e
             \<and> isbReadErrors w' (jr_name jr) = Suc (isbReadErrors w (jr_name jr))))"
  by (auto simp: Read_def split: sum.splits)

theorem Read_timeout_is_not_an_error_witness:
  "Read spec_keys (\<lambda>n t. ([], Some (Errorf ''nats'' ErrTimeout)))
      \<lparr>jr_name = ''b'', jr_stream = ''s'', jr_subject = ''s'', jr_opts = \<lparr>readTimeOut = Second\<rparr>,
       inProgessTickDuration = 2 * Second\<rparr> 5 example_world
     = Inr (([], None), example_world)
   \<and> (\<exists>err w'. Read spec_keys (\<lambda>n t. ([example_msg 1], Some (ErrOther ''connection closed'')))
        \<lparr>jr_name = ''b'', jr_stream = ''s'', jr_subject = ''s'', jr_opts = \<lparr>readTimeOut = Second\<rparr>,
         inProgessTickDuration = 2 * Second\<rparr> 5 example_world = Inr (([], Some err), w')
       \<and> errors_Is err (ErrOther ''connection closed''))"
proof -
  let ?jr = "\<lparr>jr_name = ''b'', jr_stream = ''s'', jr_subject = ''s'',
    jr_opts = \<lparr>readTimeOut = Second\<rparr>, inProgessTickDuration = 2 * Second\<rparr>"
  have a: "Read spec_keys (\<lambda>n t. ([], Some (Errorf ''nats'' ErrTimeout))) ?jr 5 example_world
      = Inr (([], None), example_world)"
    using Read_timeout_is_not_an_error
      [where Fetch = "\<lambda>n t. ([], Some (Errorf ''nats'' ErrTimeout))" and count = 5 and jr = ?jr
         and e = "Errorf ''nats'' ErrTimeout" and keys = spec_keys and w = example_world]
    by simp
  have b: "\<exists>err w'. Read spec_keys (\<lambda>n t. ([example_msg 1], Some (ErrOther ''connection closed'')))
        ?jr 5 example_world = Inr (([], Some err), w')
      \<and> errors_Is err (ErrOther ''connection closed'')"
    using Read_timeout_is_not_an_error
      [where Fetch = "\<lambda>n t. ([example_msg 1], Some (ErrOther ''connection closed''))"
         and count = 5 and jr = ?jr and e = "ErrOther ''connection closed''" and keys = spec_keys
         and w = example_world and msgs = "[example_msg 1]"]
    by auto
  from a b show ?thesis by blast
qed

section \<open>Construction\<close>

lemma connectAndSubscribe_releases:
  "connectAndSubscribe env subject = (Some err, c) \<Longrightarrow> c \<noteq> ConnOpen"
  by (auto simp: connectAndSubscribe_def split: option.splits)

lemma connectAndSubscribe_ok:
  "connectAndSubscribe env subject = (None, c) \<Longrightarrow> c = ConnOpen"
  by (auto simp: connectAndSubscribe_def split: option.splits)

text \<open>
  The constructor fails with the connection still open exactly when the connection and
  the subscription were made and a read option failed: every other failing step closes
  the connection (or never made one), the loop over the options returns without closing.
\<close>

lemma constructor_leak_iff:
  assumes "NewJetStreamBufferReader env ro0 name stream subject opts = (Inl err, c)"
  shows "c = ConnOpen \<longleftrightarrow>
    (fst (connectAndSubscribe env subject) = None \<and> apply_opts opts ro0 = Inl err)"
proof (cases "connectAndSubscribe env subject")
  case (Pair r c0)
  show ?thesis
  proof (cases r)
    case (Some e0)
    with Pair assms connectAndSubscribe_releases[of env subject e0 c0] show ?thesis
      by (auto simp: NewJetStreamBufferReader_def)
  next
    case None
    with Pair have c0: "c0 = ConnOpen" using connectAndSubscribe_ok by blast
    from assms Pair None c0 show ?thesis
      by (auto simp: NewJetStreamBufferReader_def split: sum.splits)
  qed
qed

text \<open>
  C5. The claim holds on every failing step but one. With a client that connects and
  subscribes and a read option that fails, the constructor returns the option's error and
  the connection stays open: the loop over the options returns without the
  \<^verbatim>\<open>conn.Close()\<close> that the failure of \<^verbatim>\<open>ConsumerInfo\<close> right after it has.
\<close>

theorem constructor_option_failure_leaks_connection:
  "NewJetStreamBufferReader (example_env (3 * Second)) \<lparr>readTimeOut = Second\<rparr>
     ''reader'' ''stream'' ''subject'' [Some failing_option]
   = (Inl (ErrOther ''bad option''), ConnOpen)"
  by (simp add: NewJetStreamBufferReader_def connectAndSubscribe_def example_env_def
      failing_option_def)

section \<open>The buffer commands\<close>

text \<open>
  The expectations of \<^verbatim>\<open>Test_Commands\<close> on create: no buffer and no environment, then a
  buffer with an unknown type and no environment, then the same with
  \<^verbatim>\<open>PipelineName\<close> set.
\<close>

lemma Test_Commands_create:
  "ISBSvcBufferCommand Create isbsvc Map.empty [] [] = Some EmptyBufferList"
  "ISBSvcBufferCommand Create isbsvc Map.empty ''nonono'' [''buffer1'']
     = Some (MissingEnv EnvPipelineName)"
  "ISBSvcBufferCommand Create isbsvc [EnvPipelineName \<mapsto> ''test-pl''] ''nonono'' [''buffer1'']
     = Some UnsupportedISBSvcType"
  by (simp_all add: ISBSvcBufferCommand_def buffer_command_def supported_isbsvc_type_def)

text \<open>
  C8, as stated, fails: with no buffer supplied, create without \<^verbatim>\<open>PipelineName\<close> reports
  the empty buffer list, not the missing variable.
\<close>

theorem MissingEnv_regardless_counterexample:
  "Map.empty EnvPipelineName = None
   \<and> ISBSvcBufferCommand Create example_isbsvc Map.empty ''jetstream'' []
       = Some EmptyBufferList"
  by (simp add: ISBSvcBufferCommand_def buffer_command_def)

text \<open>
  C8, amended. For each of the three commands, whenever \<^verbatim>\<open>PipelineName\<close> is not set and
  at least one buffer is supplied, the command fails with the missing variable
  \<^verbatim>\<open>PipelineName\<close>, whatever the service type and the broker.
\<close>

theorem MissingEnv_when_buffers_supplied:
  assumes "env EnvPipelineName = None" and "buffers \<noteq> []"
  shows "ISBSvcBufferCommand op isbsvc env isbsvcType buffers = Some (MissingEnv ''PipelineName'')"
  using assms by (simp add: ISBSvcBufferCommand_def buffer_command_def EnvPipelineName_def)

theorem MissingEnv_when_buffers_supplied_witness:
  "ISBSvcBufferCommand Create example_isbsvc Map.empty ''nonono'' [''buffer1'']
     = Some (MissingEnv ''PipelineName'')
   \<and> ISBSvcBufferCommand Delete example_isbsvc Map.empty ''redis'' [''buffer1'']
     = Some (MissingEnv ''PipelineName'')
   \<and> ISBSvcBufferCommand Validate example_isbsvc Map.empty ''jetstream'' [''buffer1'', ''b2'']
     = Some (MissingEnv ''PipelineName'')"
  using MissingEnv_when_buffers_supplied[of Map.empty "[''buffer1'']" Create example_isbsvc "''nonono''"]
    MissingEnv_when_buffers_supplied[of Map.empty "[''buffer1'']" Delete example_isbsvc "''redis''"]
    MissingEnv_when_buffers_supplied[of Map.empty "[''buffer1'', ''b2'']" Validate example_isbsvc "''jetstream''"]
  by simp

section \<open>Limit propagation\<close>

text \<open>
  C9. Field by field (\<^verbatim>\<open>ReadBatchSize\<close>, \<^verbatim>\<open>ReadTimeout\<close>), the merged value is the
  vertex's if it is not nil, else the pipeline's, else nil. Pipeline limits
  \<open>{ReadBatchSize = 1, ReadTimeout = 2s}\<close> merged into vertex limits
  \<open>{ReadBatchSize = 2, ReadTimeout = 3s}\<close> give \<open>{2, 3s}\<close>, and merged into a vertex with
  no limits give the pipeline's \<open>{1, 2s}\<close>.
\<close>

theorem copyVertexLimits_precedence:
  "vertex_ReadBatchSize (copyVertexLimits pl v) =
     (case vertex_ReadBatchSize v of Some x \<Rightarrow> Some x | None \<Rightarrow> pipeline_ReadBatchSize pl)
   \<and> vertex_ReadTimeout (copyVertexLimits pl v) =
     (case vertex_ReadTimeout v of Some x \<Rightarrow> Some x | None \<Rightarrow> pipeline_ReadTimeout pl)
   \<and> copyVertexLimits
       (Some \<lparr>pl_ReadBatchSize = Some 1, pl_ReadTimeout = Some (2 * Second),
              pl_BufferMaxLength = bml, pl_BufferUsageLimit = bul\<rparr>)
       (Some \<lparr>ReadBatchSize = Some 2, ReadTimeout = Some (3 * Second)\<rparr>)
     = Some \<lparr>ReadBatchSize = Some 2, ReadTimeout = Some (3 * Second)\<rparr>
   \<and> copyVertexLimits
       (Some \<lparr>pl_ReadBatchSize = Some 1, pl_ReadTimeout = Some (2 * Second),
              pl_BufferMaxLength = bml, pl_BufferUsageLimit = bul\<rparr>)
       None
     = Some \<lparr>ReadBatchSize = Some 1, ReadTimeout = Some (2 * Second)\<rparr>"
proof -
  have batch: "vertex_ReadBatchSize (copyVertexLimits pl v) =
     (case vertex_ReadBatchSize v of Some x \<Rightarrow> Some x | None \<Rightarrow> pipeline_ReadBatchSize pl)"
    by (cases pl; cases v)
      (simp_all add: copyVertexLimits_def vertex_ReadBatchSize_def pipeline_ReadBatchSize_def
        split: option.splits)
  have timeout: "vertex_ReadTimeout (copyVertexLimits pl v) =
     (case vertex_ReadTimeout v of Some x \<Rightarrow> Some x | None \<Rightarrow> pipeline_ReadTimeout pl)"
    by (cases pl; cases v)
      (simp_all add: copyVertexLimits_def vertex_ReadTimeout_def pipeline_ReadTimeout_def
        split: option.splits)
  show ?thesis
    using batch timeout by (simp add: copyVertexLimits_def)
qed


section \<open>Decoding the header\<close>

lemma digit_of_decimal:
  "is_decimal_digit c \<Longrightarrow> digit_of c = Some (of_char c - 48) \<and> (of_char c :: nat) - 48 < 10"
  by (auto simp: is_decimal_digit_def digit_of_def Let_def)

lemma digit_of_other:
  "\<not> is_decimal_digit c \<Longrightarrow> digit_of c = None \<or> (\<exists>d. digit_of c = Some d \<and> 10 \<le> d)"
  by (auto simp: is_decimal_digit_def digit_of_def Let_def)

lemma foldl_dec_mono: "(n::nat) \<le> foldl (\<lambda>n c. n * 10 + (of_char c - 48)) n ds"
proof (induction ds arbitrary: n)
  case Nil show ?case by simp
next
  case (Cons c ds)
  have "n \<le> n * 10 + (of_char c - 48)" by simp
  also have "\<dots> \<le> foldl (\<lambda>n c. n * 10 + (of_char c - 48)) (n * 10 + (of_char c - 48)) ds"
    by (rule Cons.IH)
  finally show ?case by simp
qed

lemma ParseUint_loop_syntax:
  assumes "list_all is_decimal_digit ds" and "\<not> is_decimal_digit c"
    and "foldl (\<lambda>n c. n * 10 + (of_char c - 48)) n ds < 2 ^ 64"
  shows "ParseUint_loop n (ds @ c # rest) = (0, Some ErrSyntax)"
  using assms
proof (induction ds arbitrary: n)
  case Nil
  then show ?case using digit_of_other[of c] by auto
next
  case (Cons a ds)
  let ?d = "(of_char a :: nat) - 48"
  let ?n1 = "n * 10 + ?d"
  have a: "digit_of a = Some ?d" "?d < 10" using Cons.prems(1) digit_of_decimal[of a] by auto
  have lt: "?n1 < 2 ^ 64"
    using foldl_dec_mono[of ?n1 ds] Cons.prems(3) by simp
  then have n: "n < maxUint64 div 10 + 1" by (simp add: maxUint64_def)
  have m: "?n1 mod 2 ^ 64 = ?n1" using lt by simp
  have "ParseUint_loop n ((a # ds) @ c # rest) = ParseUint_loop ?n1 (ds @ c # rest)"
    using a n lt m by (simp add: Let_def maxUint64_def)
  also have "\<dots> = (0, Some ErrSyntax)"
    using Cons.prems by (intro Cons.IH) auto
  finally show ?case .
qed

lemma non_numeric_split:
  assumes "\<not> list_all is_decimal_digit s"
  shows "\<exists>c rest. s = takeWhile is_decimal_digit s @ c # rest \<and> \<not> is_decimal_digit c"
proof -
  have "dropWhile is_decimal_digit s \<noteq> []" using assms by (simp add: list_all_iff)
  then obtain c rest where d: "dropWhile is_decimal_digit s = c # rest" by (cases "dropWhile is_decimal_digit s") auto
  then have "\<not> is_decimal_digit c" using hd_dropWhile[of is_decimal_digit s] by auto
  moreover have "s = takeWhile is_decimal_digit s @ c # rest" using d takeWhile_dropWhile_id[of is_decimal_digit s] by simp
  ultimately show ?thesis by blast
qed

lemma ParseInt_syntax:
  assumes "x \<noteq> []" "\<not> numeric x"
    and "decimal_value (takeWhile is_decimal_digit (strip_sign x)) < 2 ^ 64"
  shows "ParseInt x = (0, Some ErrSyntax)"
proof -
  obtain c cs where x: "x = c # cs" using assms(1) by (cases x) auto
  let ?b = "strip_sign x"
  have b: "?b = (if c = CHR ''+'' \<or> c = CHR ''-'' then cs else x)" by (simp add: strip_sign_def x)
  have "ParseUint ?b = (0, Some ErrSyntax)"
  proof (cases "?b = []")
    case True then show ?thesis by (simp add: ParseUint_def)
  next
    case False
    with assms(2) have "\<not> list_all is_decimal_digit ?b" by (simp add: numeric_def)
    from non_numeric_split[OF this] obtain d rest where
      s: "?b = takeWhile is_decimal_digit ?b @ d # rest" and d: "\<not> is_decimal_digit d" by blast
    have "ParseUint_loop 0 (takeWhile is_decimal_digit ?b @ d # rest) = (0, Some ErrSyntax)"
      using d assms(3) by (intro ParseUint_loop_syntax) (auto simp: decimal_value_def list_all_iff dest: set_takeWhileD)
    then show ?thesis using s False by (simp add: ParseUint_def)
  qed
  then have "ParseUint (if c = CHR ''+'' \<or> c = CHR ''-'' then cs else c # cs) = (0, Some ErrSyntax)"
    by (simp add: x strip_sign_def)
  then show ?thesis unfolding ParseInt_def x by (simp add: Let_def)
qed

lemmas parse_simps = ParseInt_def ParseUint_def digit_of_def maxUint64_def Let_def

lemma convert2IsbMsgHeader_fields:
  "IsWindow (convert2IsbMsgHeader keys h) = (Header_Get h (k_window keys) = ''1'')"
  "ID (convert2IsbMsgHeader keys h) = Header_Get h (k_id keys)"
  "Key (convert2IsbMsgHeader keys h) = Header_Get h (k_key keys)"
  "EventTime (convert2IsbMsgHeader keys h) = decode_time (Header_Get h (k_eventTime keys)) Time_zero"
  "StartTime (convert2IsbMsgHeader keys h) = decode_time (Header_Get h (k_startTime keys)) Time_zero"
  "EndTime (convert2IsbMsgHeader keys h) = decode_time (Header_Get h (k_endTime keys)) Time_zero"
  by (simp_all add: convert2IsbMsgHeader_def isb_Header_zero_def Let_def)

lemma decode_time_syntax:
  assumes "x \<noteq> []" "\<not> numeric x"
    and "decimal_value (takeWhile is_decimal_digit (strip_sign x)) < 2 ^ 64"
  shows "decode_time x old = UnixMilli 0"
  using ParseInt_syntax[OF assms] assms(1) by (simp add: decode_time_def)

text \<open>
  C7, as stated, fails: a time header that is not a number can decode to a time other
  than zero. \<^verbatim>\<open>ParseInt\<close> reports the overflow of the leading digits before it reaches
  the letter, the decoder drops the error and keeps the clamped value.
\<close>

theorem non_numeric_time_header_counterexample:
  "\<not> numeric ''99999999999999999999x''
   \<and> EventTime (convert2IsbMsgHeader spec_keys [''eventTime'' \<mapsto> ''99999999999999999999x''])
       = UnixMilli 9223372036854775807"
  by (simp add: numeric_def strip_sign_def is_decimal_digit_def convert2IsbMsgHeader_def
      spec_keys_def Header_Get_def decode_time_def isb_Header_zero_def parse_simps)

text \<open>
  C7, amended. Decoding never fails. Every absent header leaves its field at the zero
  value. A time header (\<^verbatim>\<open>eventTime\<close>, \<^verbatim>\<open>startTime\<close>, \<^verbatim>\<open>endTime\<close>) that is not empty
  and not numeric, and whose leading digits after an optional sign denote a number below
  \<open>2^64\<close>, decodes to \<^verbatim>\<open>time.UnixMilli(0)\<close>. \<^verbatim>\<open>IsWindow\<close> is true exactly when the
  window header holds the literal \<open>"1"\<close>.
\<close>

theorem convert2IsbMsgHeader_decoding:
  "(h (k_window keys) = None \<longrightarrow> \<not> IsWindow (convert2IsbMsgHeader keys h))
   \<and> (h (k_id keys) = None \<longrightarrow> ID (convert2IsbMsgHeader keys h) = [])
   \<and> (h (k_key keys) = None \<longrightarrow> Key (convert2IsbMsgHeader keys h) = [])
   \<and> (h (k_eventTime keys) = None \<longrightarrow> EventTime (convert2IsbMsgHeader keys h) = Time_zero)
   \<and> (h (k_startTime keys) = None \<longrightarrow> StartTime (convert2IsbMsgHeader keys h) = Time_zero)
   \<and> (h (k_endTime keys) = None \<longrightarrow> EndTime (convert2IsbMsgHeader keys h) = Time_zero)
   \<and> (h (k_eventTime keys) = Some x \<and> x \<noteq> [] \<and> \<not> numeric x
        \<and> decimal_value (takeWhile is_decimal_digit (strip_sign x)) < 2 ^ 64
      \<longrightarrow> EventTime (convert2IsbMsgHeader keys h) = UnixMilli 0)
   \<and> (h (k_startTime keys) = Some x \<and> x \<noteq> [] \<and> \<not> numeric x
        \<and> decimal_value (takeWhile is_decimal_digit (strip_sign x)) < 2 ^ 64
      \<longrightarrow> StartTime (convert2IsbMsgHeader keys h) = UnixMilli 0)
   \<and> (h (k_endTime keys) = Some x \<and> x \<noteq> [] \<and> \<not> numeric x
        \<and> decimal_value (takeWhile is_decimal_digit (strip_sign x)) < 2 ^ 64
      \<longrightarrow> EndTime (convert2IsbMsgHeader keys h) = UnixMilli 0)
   \<and> (IsWindow (convert2IsbMsgHeader keys h) \<longleftrightarrow> Header_Get h (k_window keys) = ''1'')"
proof -
  have absent: "Header_Get h k = []" if "h k = None" for k
    using that by (simp add: Header_Get_def)
  have present: "Header_Get h k = x" if "h k = Some x" for k
    using that by (simp add: Header_Get_def)
  have zero: "decode_time [] Time_zero = Time_zero" by (simp add: decode_time_def)
  show ?thesis
    unfolding convert2IsbMsgHeader_fields
    using absent present zero decode_time_syntax[of x Time_zero] by auto
qed

theorem convert2IsbMsgHeader_decoding_witness:
  "[''eventTime'' \<mapsto> ''12a'', ''window'' \<mapsto> ''1''] ''id'' = None
   \<and> ID (convert2IsbMsgHeader spec_keys [''eventTime'' \<mapsto> ''12a'', ''window'' \<mapsto> ''1'']) = []
   \<and> StartTime (convert2IsbMsgHeader spec_keys [''eventTime'' \<mapsto> ''12a'', ''window'' \<mapsto> ''1''])
       = Time_zero
   \<and> \<not> numeric ''12a''
   \<and> decimal_value (takeWhile is_decimal_digit (strip_sign ''12a'')) = 12
   \<and> EventTime (convert2IsbMsgHeader spec_keys [''eventTime'' \<mapsto> ''12a'', ''window'' \<mapsto> ''1''])
       = UnixMilli 0
   \<and> IsWindow (convert2IsbMsgHeader spec_keys [''eventTime'' \<mapsto> ''12a'', ''window'' \<mapsto> ''1''])"
proof -
  let ?h = "[''eventTime'' \<mapsto> ''12a'', ''window'' \<mapsto> ''1'']"
  have n: "\<not> numeric ''12a''"
    by (simp add: numeric_def strip_sign_def is_decimal_digit_def)
  have v: "decimal_value (takeWhile is_decimal_digit (strip_sign ''12a'')) = 12"
    by (simp add: decimal_value_def strip_sign_def is_decimal_digit_def)
  have k: "?h (k_eventTime spec_keys) = Some ''12a''" "?h (k_id spec_keys) = None"
    "?h (k_startTime spec_keys) = None" "Header_Get ?h (k_window spec_keys) = ''1''"
    by (simp_all add: spec_keys_def Header_Get_def)
  from convert2IsbMsgHeader_decoding[of ?h spec_keys "''12a''"] n v k
  show ?thesis by (simp add: spec_keys_def)
qed


section \<open>Heartbeats of the delivered messages\<close>

lemma newOffset_cases:
  assumes "- (2 ^ 63) \<le> tick" "tick < 2 ^ 63"
  shows "newOffset m tick w =
    (case msg_Metadata m of
       None \<Rightarrow> Inl NilDereference
     | Some md \<Rightarrow>
         if Second < tick
         then Inr (\<lparr>seq = Sequence_Stream md, msg = m, cancelFunc = Some (next_ctx w)\<rparr>,
                   w\<lparr>next_ctx := Suc (next_ctx w),
                     heartbeats := (heartbeats w)(next_ctx w \<mapsto>
                       \<lparr>hb_msg = m, hb_tick = tick, hb_cancelled = False\<rparr>)\<rparr>)
         else Inr (\<lparr>seq = Sequence_Stream md, msg = m, cancelFunc = None\<rparr>, w))"
  unfolding newOffset_def Seconds_gt_one_iff[OF assms]
  by (simp add: Let_def split: option.splits)

lemma Read_loop_returns:
  assumes "\<forall>m \<in> set msgs. msg_Metadata m \<noteq> None"
  shows "\<exists>res w'. Read_loop keys tick msgs acc w = Inr (res, w')"
  using assms
proof (induction msgs arbitrary: acc w)
  case Nil
  show ?case by simp
next
  case (Cons m msgs)
  then obtain md where md: "msg_Metadata m = Some md" by auto
  have "\<exists>off w1. newOffset m tick w = Inr (off, w1)"
    unfolding newOffset_def md by (cases "1 < Seconds tick") (simp_all add: Let_def)
  then obtain off w1 where n: "newOffset m tick w = Inr (off, w1)" by blast
  show ?case using Cons.IH[of _ w1] Cons.prems by (simp add: n)
qed

lemma Read_loop_no_heartbeat:
  assumes "- (2 ^ 63) \<le> tick" "tick < 2 ^ 63" "\<not> Second < tick"
    and "Read_loop keys tick msgs acc w = Inr (res, w')"
  shows "w' = w \<and> length res = length acc + length msgs \<and> take (length acc) res = acc
    \<and> (\<forall>i < length msgs. msg (ReadOffset (res ! (length acc + i))) = msgs ! i
          \<and> cancelFunc (ReadOffset (res ! (length acc + i))) = None)"
  using assms(4)
proof (induction msgs arbitrary: acc)
  case Nil
  then show ?case by simp
next
  case (Cons m msgs)
  from Cons.prems obtain md where md: "msg_Metadata m = Some md"
    by (cases "msg_Metadata m") (simp_all add: newOffset_cases[OF assms(1,2)])
  define rm where "rm = \<lparr>ReadOffset = \<lparr>seq = Sequence_Stream md, msg = m, cancelFunc = None\<rparr>,
    Header = convert2IsbMsgHeader keys (msg_Header m), Payload = msg_Data m\<rparr>"
  have step: "Read_loop keys tick msgs (acc @ [rm]) w = Inr (res, w')"
    using Cons.prems assms(3) by (simp add: newOffset_cases[OF assms(1,2)] md rm_def)
  from Cons.IH[OF step] have w: "w' = w"
    and len: "length res = length acc + 1 + length msgs"
    and tk: "take (length acc + 1) res = acc @ [rm]"
    and rest: "\<forall>i < length msgs. msg (ReadOffset (res ! (length acc + 1 + i))) = msgs ! i
          \<and> cancelFunc (ReadOffset (res ! (length acc + 1 + i))) = None"
    by simp_all
  have tk0: "take (length acc) res = acc"
  proof -
    have "take (length acc) res = take (length acc) (take (length acc + 1) res)" by simp
    then show ?thesis unfolding tk by simp
  qed
  have at: "res ! length acc = rm"
  proof -
    have "res ! length acc = take (length acc + 1) res ! length acc" by simp
    then show ?thesis unfolding tk by simp
  qed
  have "msg (ReadOffset (res ! (length acc + i))) = (m # msgs) ! i
      \<and> cancelFunc (ReadOffset (res ! (length acc + i))) = None" if "i < length (m # msgs)" for i
  proof (cases i)
    case 0 then show ?thesis using at by (simp add: rm_def)
  next
    case (Suc j) then show ?thesis using rest that by simp
  qed
  then show ?case using w len tk0 by simp
qed

lemma Read_loop_heartbeat:
  assumes "- (2 ^ 63) \<le> tick" "tick < 2 ^ 63" "Second < tick"
    and "Read_loop keys tick msgs acc w = Inr (res, w')"
  shows "next_ctx w' = next_ctx w + length msgs \<and> broker w' = broker w
    \<and> length res = length acc + length msgs \<and> take (length acc) res = acc
    \<and> (\<forall>i < length msgs. msg (ReadOffset (res ! (length acc + i))) = msgs ! i
          \<and> cancelFunc (ReadOffset (res ! (length acc + i))) = Some (next_ctx w + i))
    \<and> heartbeats w' = (\<lambda>c. if next_ctx w \<le> c \<and> c < next_ctx w + length msgs
          then Some \<lparr>hb_msg = msgs ! (c - next_ctx w), hb_tick = tick, hb_cancelled = False\<rparr>
          else heartbeats w c)"
  using assms(4)
proof (induction msgs arbitrary: acc w)
  case Nil
  then show ?case by (auto simp: fun_eq_iff)
next
  case (Cons m msgs)
  from Cons.prems obtain md where md: "msg_Metadata m = Some md"
    by (cases "msg_Metadata m") (simp_all add: newOffset_cases[OF assms(1,2)])
  define rm where "rm = \<lparr>ReadOffset = \<lparr>seq = Sequence_Stream md, msg = m, cancelFunc = Some (next_ctx w)\<rparr>,
    Header = convert2IsbMsgHeader keys (msg_Header m), Payload = msg_Data m\<rparr>"
  define w1 where "w1 = w\<lparr>next_ctx := Suc (next_ctx w),
     heartbeats := (heartbeats w)(next_ctx w \<mapsto> \<lparr>hb_msg = m, hb_tick = tick, hb_cancelled = False\<rparr>)\<rparr>"
  have step: "Read_loop keys tick msgs (acc @ [rm]) w1 = Inr (res, w')"
    using Cons.prems assms(3) by (simp add: newOffset_cases[OF assms(1,2)] md rm_def w1_def)
  from Cons.IH[OF step] have nx: "next_ctx w' = next_ctx w1 + length msgs"
    and br: "broker w' = broker w1"
    and len: "length res = length acc + 1 + length msgs"
    and tk: "take (length acc + 1) res = acc @ [rm]"
    and rest: "\<forall>i < length msgs. msg (ReadOffset (res ! (length acc + 1 + i))) = msgs ! i
          \<and> cancelFunc (ReadOffset (res ! (length acc + 1 + i))) = Some (next_ctx w1 + i)"
    and hb: "heartbeats w' = (\<lambda>c. if next_ctx w1 \<le> c \<and> c < next_ctx w1 + length msgs
          then Some \<lparr>hb_msg = msgs ! (c - next_ctx w1), hb_tick = tick, hb_cancelled = False\<rparr>
          else heartbeats w1 c)"
    by simp_all
  have n1: "next_ctx w1 = Suc (next_ctx w)" and b1: "broker w1 = broker w"
    and h1: "heartbeats w1 = (heartbeats w)(next_ctx w \<mapsto> \<lparr>hb_msg = m, hb_tick = tick, hb_cancelled = False\<rparr>)"
    by (simp_all add: w1_def)
  have tk0: "take (length acc) res = acc"
  proof -
    have "take (length acc) res = take (length acc) (take (length acc + 1) res)" by simp
    then show ?thesis unfolding tk by simp
  qed
  have at: "res ! length acc = rm"
  proof -
    have "res ! length acc = take (length acc + 1) res ! length acc" by simp
    then show ?thesis unfolding tk by simp
  qed
  have idx: "msg (ReadOffset (res ! (length acc + i))) = (m # msgs) ! i
      \<and> cancelFunc (ReadOffset (res ! (length acc + i))) = Some (next_ctx w + i)"
    if "i < length (m # msgs)" for i
  proof (cases i)
    case 0 then show ?thesis using at by (simp add: rm_def)
  next
    case (Suc j) then show ?thesis using rest that n1 by simp
  qed
  have hbs: "heartbeats w' = (\<lambda>c. if next_ctx w \<le> c \<and> c < next_ctx w + length (m # msgs)
          then Some \<lparr>hb_msg = (m # msgs) ! (c - next_ctx w), hb_tick = tick, hb_cancelled = False\<rparr>
          else heartbeats w c)"
  proof (rule ext)
    fix c
    consider "c < next_ctx w" | "c = next_ctx w" | "next_ctx w < c" by linarith
    then show "heartbeats w' c = (if next_ctx w \<le> c \<and> c < next_ctx w + length (m # msgs)
          then Some \<lparr>hb_msg = (m # msgs) ! (c - next_ctx w), hb_tick = tick, hb_cancelled = False\<rparr>
          else heartbeats w c)"
    proof cases
      case 1 then show ?thesis unfolding hb n1 h1 by simp
    next
      case 2 then show ?thesis unfolding hb n1 h1 by simp
    next
      case 3
      then obtain j where j: "c = Suc (next_ctx w) + j" using less_iff_Suc_add by auto
      show ?thesis unfolding hb n1 h1 j by simp
    qed
  qed
  show ?case using nx br len tk0 idx hbs n1 b1 by simp
qed

lemma Read_without_fetch_error:
  assumes "Fetch count (readTimeOut (jr_opts jr)) = (msgs, None)"
    and "Read keys Fetch jr count w = Inr ((res, e), w')"
  shows "e = None"
  using assms(2) unfolding Read_def assms(1) by (auto split: sum.splits)

text \<open>
  C6. \<^verbatim>\<open>Read\<close> returns whenever every fetched message has its metadata. For every
  message it delivers, in the order of the fetch, a heartbeat is spawned if and only if
  the tick duration of the reader is strictly greater than one second: then the offset
  carries the cancel function of a fresh context, under which a running heartbeat for
  that message and that tick is registered, and no other heartbeat appears; with a tick
  of at most one second the offset's cancel function is nil and the world is unchanged.
\<close>

theorem Read_heartbeat_iff_tick_above_one_second:
  assumes "- (2 ^ 63) \<le> inProgessTickDuration jr" and "inProgessTickDuration jr < 2 ^ 63"
    and "Fetch count (readTimeOut (jr_opts jr)) = (msgs, ferr)"
  shows "((\<forall>m \<in> set msgs. msg_Metadata m \<noteq> None)
          \<longrightarrow> (\<exists>r w'. Read keys Fetch jr count w = Inr (r, w')))
    \<and> (Read keys Fetch jr count w = Inr ((result, None), w') \<longrightarrow>
         length result = length msgs
         \<and> (\<forall>i < length result.
               msg (ReadOffset (result ! i)) = msgs ! i
               \<and> (cancelFunc (ReadOffset (result ! i)) \<noteq> None
                    \<longleftrightarrow> Second < inProgessTickDuration jr)
               \<and> (Second < inProgessTickDuration jr \<longrightarrow>
                    cancelFunc (ReadOffset (result ! i)) = Some (next_ctx w + i)
                    \<and> heartbeats w' (next_ctx w + i)
                        = Some \<lparr>hb_msg = msgs ! i, hb_tick = inProgessTickDuration jr,
                                hb_cancelled = False\<rparr>))
         \<and> (Second < inProgessTickDuration jr \<longrightarrow>
               dom (heartbeats w') = dom (heartbeats w) \<union> {next_ctx w ..< next_ctx w + length msgs})
         \<and> (\<not> Second < inProgessTickDuration jr \<longrightarrow> w' = w))"
proof -
  let ?tick = "inProgessTickDuration jr"
  have A: "\<exists>r w'. Read keys Fetch jr count w = Inr (r, w')"
    if md: "\<forall>m \<in> set msgs. msg_Metadata m \<noteq> None"
  proof -
    obtain res w1 where "Read_loop keys ?tick msgs [] w = Inr (res, w1)"
      using Read_loop_returns[OF md] by blast
    then show ?thesis unfolding Read_def assms(3) by (auto split: option.splits)
  qed
  have B: "length result = length msgs
         \<and> (\<forall>i < length result.
               msg (ReadOffset (result ! i)) = msgs ! i
               \<and> (cancelFunc (ReadOffset (result ! i)) \<noteq> None \<longleftrightarrow> Second < ?tick)
               \<and> (Second < ?tick \<longrightarrow>
                    cancelFunc (ReadOffset (result ! i)) = Some (next_ctx w + i)
                    \<and> heartbeats w' (next_ctx w + i)
                        = Some \<lparr>hb_msg = msgs ! i, hb_tick = ?tick, hb_cancelled = False\<rparr>))
         \<and> (Second < ?tick \<longrightarrow>
               dom (heartbeats w') = dom (heartbeats w) \<union> {next_ctx w ..< next_ctx w + length msgs})
         \<and> (\<not> Second < ?tick \<longrightarrow> w' = w)"
    if run: "Read keys Fetch jr count w = Inr ((result, None), w')"
  proof -
    have loop: "Read_loop keys ?tick msgs [] w = Inr (result, w')"
      using run unfolding Read_def assms(3)
      by (auto split: option.splits if_splits sum.splits)
    show ?thesis
    proof (cases "Second < ?tick")
      case True
      from Read_loop_heartbeat[OF assms(1,2) True loop]
      have len: "length result = length msgs"
        and idx: "\<forall>i < length msgs. msg (ReadOffset (result ! i)) = msgs ! i
          \<and> cancelFunc (ReadOffset (result ! i)) = Some (next_ctx w + i)"
        and hb: "heartbeats w' = (\<lambda>c. if next_ctx w \<le> c \<and> c < next_ctx w + length msgs
          then Some \<lparr>hb_msg = msgs ! (c - next_ctx w), hb_tick = ?tick, hb_cancelled = False\<rparr>
          else heartbeats w c)"
        by simp_all
      have d: "dom (heartbeats w') = dom (heartbeats w) \<union> {next_ctx w ..< next_ctx w + length msgs}"
        unfolding hb by (auto simp: dom_def)
      show ?thesis using True len idx d by (simp add: hb)
    next
      case False
      from Read_loop_no_heartbeat[OF assms(1,2) False loop]
      show ?thesis using False by simp
    qed
  qed
  from A B show ?thesis by blast
qed

theorem Read_heartbeat_iff_tick_above_one_second_witness:
  "(\<exists>result w'.
      Read spec_keys (\<lambda>n t. ([example_msg 1, example_msg 2], None))
        \<lparr>jr_name = ''b'', jr_stream = ''s'', jr_subject = ''s'', jr_opts = \<lparr>readTimeOut = Second\<rparr>,
         inProgessTickDuration = 2000000000\<rparr> 2 example_world = Inr ((result, None), w')
      \<and> length result = 2
      \<and> cancelFunc (ReadOffset (result ! 0)) = Some 0
      \<and> cancelFunc (ReadOffset (result ! 1)) = Some 1
      \<and> dom (heartbeats w') = {0, 1})
   \<and> (\<exists>result.
      Read spec_keys (\<lambda>n t. ([example_msg 1, example_msg 2], None))
        \<lparr>jr_name = ''b'', jr_stream = ''s'', jr_subject = ''s'', jr_opts = \<lparr>readTimeOut = Second\<rparr>,
         inProgessTickDuration = 1000000000\<rparr> 2 example_world = Inr ((result, None), example_world)
      \<and> length result = 2
      \<and> cancelFunc (ReadOffset (result ! 0)) = None
      \<and> cancelFunc (ReadOffset (result ! 1)) = None)"
proof -
  let ?F = "\<lambda>(n::int) (t::Duration). ([example_msg 1, example_msg 2], None :: error option)"
  let ?jr2 = "\<lparr>jr_name = ''b'', jr_stream = ''s'', jr_subject = ''s'',
    jr_opts = \<lparr>readTimeOut = Second\<rparr>, inProgessTickDuration = 2000000000\<rparr>"
  let ?jr1 = "\<lparr>jr_name = ''b'', jr_stream = ''s'', jr_subject = ''s'',
    jr_opts = \<lparr>readTimeOut = Second\<rparr>, inProgessTickDuration = 1000000000\<rparr>"
  have md: "\<forall>m \<in> set [example_msg 1, example_msg 2]. msg_Metadata m \<noteq> None"
    by (simp add: example_msg_def)
  have r2: "- (2 ^ 63) \<le> inProgessTickDuration ?jr2" "inProgessTickDuration ?jr2 < 2 ^ 63" by simp_all
  have r1: "- (2 ^ 63) \<le> inProgessTickDuration ?jr1" "inProgessTickDuration ?jr1 < 2 ^ 63" by simp_all
  have f2: "?F 2 (readTimeOut (jr_opts ?jr2)) = ([example_msg 1, example_msg 2], None)" by simp
  have f1: "?F 2 (readTimeOut (jr_opts ?jr1)) = ([example_msg 1, example_msg 2], None)" by simp
  have "\<exists>r w'. Read spec_keys ?F ?jr2 2 example_world = Inr (r, w')"
    using Read_heartbeat_iff_tick_above_one_second[OF r2 f2, where keys = spec_keys and w = example_world] md
    by blast
  then obtain res2 e2 w2 where "Read spec_keys ?F ?jr2 2 example_world = Inr ((res2, e2), w2)"
    by auto
  with Read_without_fetch_error[OF f2 this]
  have run2: "Read spec_keys ?F ?jr2 2 example_world = Inr ((res2, None), w2)" by simp
  have "\<exists>r w'. Read spec_keys ?F ?jr1 2 example_world = Inr (r, w')"
    using Read_heartbeat_iff_tick_above_one_second[OF r1 f1, where keys = spec_keys and w = example_world] md
    by blast
  then obtain res1 e1 w1 where "Read spec_keys ?F ?jr1 2 example_world = Inr ((res1, e1), w1)"
    by auto
  with Read_without_fetch_error[OF f1 this]
  have run1: "Read spec_keys ?F ?jr1 2 example_world = Inr ((res1, None), w1)" by simp
  have a: "length res2 = 2 \<and> cancelFunc (ReadOffset (res2 ! 0)) = Some 0
      \<and> cancelFunc (ReadOffset (res2 ! 1)) = Some 1 \<and> dom (heartbeats w2) = {0, 1}"
    using Read_heartbeat_iff_tick_above_one_second[OF r2 f2, where keys = spec_keys and w = example_world and result = res2 and w' = w2] run2
    by (auto simp: Second_def example_world_def)
  have b: "length res1 = 2 \<and> cancelFunc (ReadOffset (res1 ! 0)) = None
      \<and> cancelFunc (ReadOffset (res1 ! 1)) = None \<and> w1 = example_world"
    using Read_heartbeat_iff_tick_above_one_second[OF r1 f1, where keys = spec_keys and w = example_world and result = res1 and w' = w1] run1
    by (auto simp: Second_def)
  from a b run1 run2 show ?thesis by blast
qed


section \<open>Ack: every interleaving\<close>

lemma count_update:
  "i < length ws \<Longrightarrow>
   int (length (filter P (ws[i := v]))) =
     int (length (filter P ws)) - (if P (ws ! i) then 1 else 0) + (if P v then 1 else 0)"
proof (induction ws arbitrary: i)
  case Nil
  then show ?case by simp
next
  case (Cons a ws)
  show ?case
  proof (cases i)
    case 0
    then show ?thesis by simp
  next
    case (Suc j)
    then have "j < length ws" using Cons.prems by simp
    from Cons.IH[OF this] show ?thesis using Suc by (auto split: if_splits)
  qed
qed

lemma count_zero: "length (filter P ws) = 0 \<Longrightarrow> i < length ws \<Longrightarrow> \<not> P (ws ! i)"
  by (auto simp: filter_empty_conv)

lemma count_pos: "i < length ws \<Longrightarrow> P (ws ! i) \<Longrightarrow> 0 < length (filter P ws)"
  using count_zero[of P ws i] by auto

lemma inv_init: "ack_inv ackit offsets (Ack_init offsets w)"
  by (simp add: ack_inv_def Ack_init_def main_ok_def worker_ok_def active_def)

lemma inv_main_step:
  assumes "ack_inv ackit offsets s"
  shows "ack_inv ackit offsets (main_step offsets s)"
proof (cases "a_main s")
  case (Spawning k)
  show ?thesis
  proof (cases "k < length offsets")
    case True
    from assms Spawning True have u: "a_workers s ! k = Unborn"
      by (simp add: ack_inv_def main_ok_def)
    from assms True have len: "k < length (a_workers s)" by (simp add: ack_inv_def)
    have cnt: "int (length (filter active ((a_workers s)[k := Ready])))
        = int (length (filter active (a_workers s))) + 1"
      using count_update[OF len, of active Ready] u by (simp add: active_def)
    have ok: "worker_ok ackit (offsets ! i) (a_errs s ! i) ((a_workers s)[k := Ready] ! i)"
      if "i < length offsets" for i
      using assms that u len
      by (cases "i = k") (auto simp: ack_inv_def worker_ok_def)
    have un: "((a_workers s)[k := Ready] ! i = Unborn) = (Suc k \<le> i)" if "i < length offsets" for i
      using assms Spawning that len
      by (cases "i = k") (auto simp: ack_inv_def main_ok_def)
    show ?thesis
      using assms Spawning True cnt ok un
      by (simp add: ack_inv_def main_step_def main_ok_def)
  next
    case False
    then show ?thesis
      using assms Spawning
      by (auto simp: ack_inv_def main_step_def main_ok_def)
  qed
next
  case Blocked
  then show ?thesis using assms by (auto simp: ack_inv_def main_step_def main_ok_def)
next
  case Returned
  then show ?thesis using assms by (simp add: main_step_def)
qed

lemma inv_waiter_step:
  assumes "ack_inv ackit offsets s"
  shows "ack_inv ackit offsets (waiter_step s)"
proof (cases "a_waiter s")
  case NotStarted
  then show ?thesis using assms by (simp add: waiter_step_def)
next
  case Waiting
  then show ?thesis using assms
    by (cases "a_main s") (auto simp: ack_inv_def waiter_step_def main_ok_def)
next
  case Closed
  then show ?thesis using assms by (simp add: waiter_step_def)
qed

lemma main_ok_update:
  assumes "main_ok n s" "i < n" "a_workers s ! i \<noteq> Unborn" "v \<noteq> Unborn"
    "length (a_workers s) = n"
    "a_main s' = a_main s" "a_waiter s' = a_waiter s" "a_done s' = a_done s"
    "a_workers s' = (a_workers s)[i := v]"
  shows "main_ok n s'"
proof -
  have "((a_workers s)[i := v] ! j = Unborn) = (a_workers s ! j = Unborn)" if "j < n" for j
    using assms(2-5) that by (cases "j = i") auto
  then show ?thesis
    using assms(1) unfolding main_ok_def assms(6-9) by (auto split: main_pc.splits)
qed

lemma ack_invD:
  assumes "ack_inv ackit offsets s"
  shows "length (a_workers s) = length offsets" "length (a_errs s) = length offsets"
    "\<not> a_panic s" "a_wg s = int (length (filter active (a_workers s)))"
    "main_ok (length offsets) s" "a_done s \<longrightarrow> a_waiter s = Closed \<and> a_wg s = 0"
    "a_waiter s = Closed \<longrightarrow> a_done s"
    "\<And>i. i < length offsets \<Longrightarrow> worker_ok ackit (offsets ! i) (a_errs s ! i) (a_workers s ! i)"
  using assms unfolding ack_inv_def by blast+

lemma ack_invI:
  assumes "length (a_workers s) = length offsets" "length (a_errs s) = length offsets"
    "\<not> a_panic s" "a_wg s = int (length (filter active (a_workers s)))"
    "main_ok (length offsets) s" "a_done s \<longrightarrow> a_waiter s = Closed \<and> a_wg s = 0"
    "a_waiter s = Closed \<longrightarrow> a_done s"
    "\<And>i. i < length offsets \<Longrightarrow> worker_ok ackit (offsets ! i) (a_errs s ! i) (a_workers s ! i)"
  shows "ack_inv ackit offsets s"
  using assms unfolding ack_inv_def by blast

lemma inv_worker_step:
  assumes inv: "ack_inv ackit offsets s"
    and total: "\<And>off w. \<exists>r w'. ackit off w = Inr (r, w')"
  shows "ack_inv ackit offsets (worker_step ackit offsets index s)"
proof (cases "index < length offsets")
  case False
  then have "worker_step ackit offsets index s = s"
    using ack_invD(1)[OF inv] by (simp add: worker_step_def)
  then show ?thesis using inv by simp
next
  case True
  let ?n = "length offsets"
  let ?ws = "a_workers s"
  from inv True have len: "index < length ?ws" and lenw: "length ?ws = ?n"
    and lene: "length (a_errs s) = ?n" and np: "\<not> a_panic s"
    and wg: "a_wg s = int (length (filter active ?ws))"
    and mo: "main_ok ?n s"
    and dn: "a_done s \<longrightarrow> a_waiter s = Closed \<and> a_wg s = 0"
    and cl: "a_waiter s = Closed \<longrightarrow> a_done s"
    and ok: "\<And>i. i < ?n \<Longrightarrow> worker_ok ackit (offsets ! i) (a_errs s ! i) (?ws ! i)"
    using ack_invD[OF inv] by simp_all
  show ?thesis
  proof (cases "?ws ! index")
    case Unborn
    then show ?thesis using inv len by (simp add: worker_step_def)
  next
    case Ready
    obtain r w' where a: "ackit (offsets ! index) (a_world s) = Inr (r, w')"
      using total by blast
    let ?s' = "s\<lparr>a_world := w', a_workers := ?ws[index := Acked (a_world s) r]\<rparr>"
    have st: "worker_step ackit offsets index s = ?s'"
      using len Ready a by (simp add: worker_step_def)
    have cnt: "int (length (filter active (?ws[index := Acked (a_world s) r])))
        = int (length (filter active ?ws))"
      using count_update[OF len, of active "Acked (a_world s) r"] Ready by (simp add: active_def)
    have mo': "main_ok ?n ?s'"
      using mo True by (rule main_ok_update) (simp_all add: Ready lenw)
    have ok': "worker_ok ackit (offsets ! i) (a_errs s ! i) (?ws[index := Acked (a_world s) r] ! i)"
      if "i < ?n" for i
    proof (cases "i = index")
      case True
      then show ?thesis using ok[OF that] Ready a len by (simp add: worker_ok_def)
    next
      case False
      then show ?thesis using ok[OF that] by simp
    qed
    show ?thesis
      unfolding st using lenw lene np wg cnt mo' dn cl ok' by (intro ack_invI) simp_all
  next
    case (Acked w r)
    let ?errs' = "(if r \<noteq> None then (a_errs s)[index := r] else a_errs s)"
    let ?s' = "s\<lparr>a_errs := ?errs', a_workers := ?ws[index := Stored w r]\<rparr>"
    have st: "worker_step ackit offsets index s = ?s'"
      using len Acked by (simp add: worker_step_def)
    have cnt: "int (length (filter active (?ws[index := Stored w r])))
        = int (length (filter active ?ws))"
      using count_update[OF len, of active "Stored w r"] Acked by (simp add: active_def)
    have mo': "main_ok ?n ?s'"
      using mo True by (rule main_ok_update) (simp_all add: Acked lenw)
    have e_at: "?errs' ! index = r"
      using ok[OF True] Acked True lene by (auto simp: worker_ok_def)
    have e_other: "?errs' ! i = a_errs s ! i" if "i \<noteq> index" for i
      using that by simp
    have ok': "worker_ok ackit (offsets ! i) (?errs' ! i) (?ws[index := Stored w r] ! i)"
      if "i < ?n" for i
    proof (cases "i = index")
      case True
      then show ?thesis using ok[OF that] Acked len e_at by (simp add: worker_ok_def)
    next
      case False
      then show ?thesis using ok[OF that] e_other[OF False] by simp
    qed
    have lene': "length ?errs' = ?n" using lene by simp
    show ?thesis
      unfolding st using lenw lene' np wg cnt mo' dn cl ok' by (intro ack_invI) simp_all
  next
    case (Stored w r)
    have pos: "0 < length (filter active ?ws)"
      using count_pos[OF len, of active] Stored by (simp add: active_def)
    then have nd: "\<not> a_done s" using dn wg by auto
    let ?s' = "s\<lparr>a_wg := a_wg s - 1, a_workers := ?ws[index := Exited w r]\<rparr>"
    have st: "worker_step ackit offsets index s = ?s'"
      using len Stored pos wg by (simp add: worker_step_def)
    have cnt: "int (length (filter active (?ws[index := Exited w r])))
        = int (length (filter active ?ws)) - 1"
      using count_update[OF len, of active "Exited w r"] Stored by (simp add: active_def)
    have mo': "main_ok ?n ?s'"
      using mo True by (rule main_ok_update) (simp_all add: Stored lenw)
    have ok': "worker_ok ackit (offsets ! i) (a_errs s ! i) (?ws[index := Exited w r] ! i)"
      if "i < ?n" for i
    proof (cases "i = index")
      case True
      then show ?thesis using ok[OF that] Stored len by (simp add: worker_ok_def)
    next
      case False
      then show ?thesis using ok[OF that] by simp
    qed
    show ?thesis
      unfolding st using lenw lene np wg cnt mo' nd cl ok' by (intro ack_invI) simp_all
  next
    case (Exited w r)
    then show ?thesis using inv len by (simp add: worker_step_def)
  qed
qed

lemma inv_step:
  assumes "ack_inv ackit offsets s"
    and "\<And>off w. \<exists>r w'. ackit off w = Inr (r, w')"
  shows "ack_inv ackit offsets (Ack_step ackit offsets s t)"
  using assms inv_main_step[of ackit offsets s] inv_waiter_step[of ackit offsets s]
    inv_worker_step[of ackit offsets s]
  by (cases t) (simp_all add: Ack_step_def)

lemma inv_run:
  assumes "ack_inv ackit offsets s"
    and "\<And>off w. \<exists>r w'. ackit off w = Inr (r, w')"
  shows "ack_inv ackit offsets (Ack_run ackit offsets sched s)"
  using assms(1)
proof (induction sched arbitrary: s)
  case Nil
  then show ?case by (simp add: Ack_run_def)
next
  case (Cons t sched)
  have "ack_inv ackit offsets (Ack_step ackit offsets s t)"
    using Cons.prems assms(2) by (rule inv_step)
  from Cons.IH[OF this] show ?case by (simp add: Ack_run_def)
qed

lemma inv_returned:
  assumes "ack_inv ackit offsets s" "a_main s = Returned" "i < length offsets"
  shows "\<exists>wi wi'. a_workers s ! i = Exited wi (a_errs s ! i)
    \<and> ackit (offsets ! i) wi = Inr (a_errs s ! i, wi')"
proof -
  from ack_invD(5)[OF assms(1)] assms(2,3) have d: "a_done s" and nu: "a_workers s ! i \<noteq> Unborn"
    by (simp_all add: main_ok_def)
  from d ack_invD(6)[OF assms(1)] have "a_wg s = 0" by simp
  with ack_invD(4)[OF assms(1)] have "length (filter active (a_workers s)) = 0" by simp
  moreover have "i < length (a_workers s)" using ack_invD(1)[OF assms(1)] assms(3) by simp
  ultimately have "\<not> active (a_workers s ! i)" by (rule count_zero)
  with nu obtain wi r where e: "a_workers s ! i = Exited wi r"
    by (cases "a_workers s ! i") (simp_all add: active_def)
  have "worker_ok ackit (offsets ! i) (a_errs s ! i) (a_workers s ! i)"
    using ack_invD(8)[OF assms(1) assms(3)] .
  then show ?thesis unfolding e by (auto simp: worker_ok_def)
qed

lemma rank_update:
  "i < length ws \<Longrightarrow>
   sum_list (map f (ws[i := v])) + f (ws ! i) = sum_list (map f ws) + (f v :: nat)"
proof (induction ws arbitrary: i)
  case Nil
  then show ?case by simp
next
  case (Cons a ws)
  show ?case
  proof (cases i)
    case 0
    then show ?thesis by simp
  next
    case (Suc j)
    then have "j < length ws" using Cons.prems by simp
    from Cons.IH[OF this] show ?thesis using Suc by simp
  qed
qed

lemma progress:
  assumes inv: "ack_inv ackit offsets s"
    and total: "\<And>off w. \<exists>r w'. ackit off w = Inr (r, w')"
    and nr: "a_main s \<noteq> Returned"
  shows "\<exists>t. ack_measure (length offsets) (Ack_step ackit offsets s t)
           < ack_measure (length offsets) s"
proof -
  let ?n = "length offsets"
  let ?ws = "a_workers s"
  note d = ack_invD[OF inv]
  have np: "\<not> a_panic s" by (rule d(3))
  show ?thesis
  proof (cases "a_main s")
    case (Spawning k)
    show ?thesis
    proof (cases "k < ?n")
      case True
      then have len: "k < length ?ws" using d(1) by simp
      have u: "?ws ! k = Unborn" using d(5) Spawning True by (simp add: main_ok_def)
      have "sum_list (map worker_rank (?ws[k := Ready])) = sum_list (map worker_rank ?ws)"
        using rank_update[OF len, of worker_rank Ready] u by (simp add: worker_rank_def)
      then have "ack_measure ?n (Ack_step ackit offsets s Main) < ack_measure ?n s"
        using np Spawning True by (simp add: Ack_step_def main_step_def ack_measure_def)
      then show ?thesis ..
    next
      case False
      have "a_waiter s = NotStarted" using d(5) Spawning by (simp add: main_ok_def)
      then have "ack_measure ?n (Ack_step ackit offsets s Main) < ack_measure ?n s"
        using np Spawning False by (simp add: Ack_step_def main_step_def ack_measure_def)
      then show ?thesis ..
    qed
  next
    case Blocked
    show ?thesis
    proof (cases "\<exists>i<?n. active (?ws ! i)")
      case True
      then obtain i where i: "i < ?n" and a: "active (?ws ! i)" by blast
      have len: "i < length ?ws" using i d(1) by simp
      have pos: "0 < a_wg s" using count_pos[OF len, of active] a d(4) by simp
      have st: "Ack_step ackit offsets s (Worker i) = worker_step ackit offsets i s"
        using np by (simp add: Ack_step_def)
      obtain r w' where ack: "ackit (offsets ! i) (a_world s) = Inr (r, w')"
        using total by blast
      have "ack_measure ?n (worker_step ackit offsets i s) < ack_measure ?n s"
      proof (cases "?ws ! i")
        case Unborn
        then show ?thesis using a by (simp add: active_def)
      next
        case Ready
        have "sum_list (map worker_rank (?ws[i := Acked (a_world s) r])) + 3
            = sum_list (map worker_rank ?ws) + 2"
          using rank_update[OF len, of worker_rank "Acked (a_world s) r"] Ready
          by (simp add: worker_rank_def)
        then show ?thesis
          using len Ready ack by (simp add: worker_step_def ack_measure_def)
      next
        case (Acked w e)
        have "sum_list (map worker_rank (?ws[i := Stored w e])) + 2
            = sum_list (map worker_rank ?ws) + 1"
          using rank_update[OF len, of worker_rank "Stored w e"] Acked
          by (simp add: worker_rank_def)
        then show ?thesis
          using len Acked by (simp add: worker_step_def ack_measure_def)
      next
        case (Stored w e)
        have "sum_list (map worker_rank (?ws[i := Exited w e])) + 1
            = sum_list (map worker_rank ?ws) + 0"
          using rank_update[OF len, of worker_rank "Exited w e"] Stored
          by (simp add: worker_rank_def)
        then show ?thesis
          using len Stored pos by (simp add: worker_step_def ack_measure_def)
      next
        case (Exited w e)
        then show ?thesis using a by (simp add: active_def)
      qed
      then show ?thesis unfolding st[symmetric] ..
    next
      case False
      have "filter active ?ws = []"
        unfolding filter_empty_conv using False d(1) by (auto simp: in_set_conv_nth)
      then have wg0: "a_wg s = 0" using d(4) by simp
      have ns: "a_waiter s \<noteq> NotStarted" using d(5) Blocked by (simp add: main_ok_def)
      show ?thesis
      proof (cases "a_waiter s")
        case NotStarted
        then show ?thesis using ns by simp
      next
        case Waiting
        then have "ack_measure ?n (Ack_step ackit offsets s Waiter) < ack_measure ?n s"
          using np wg0 by (simp add: Ack_step_def waiter_step_def ack_measure_def)
        then show ?thesis ..
      next
        case Closed
        then have "a_done s" using d(7) by simp
        then have "ack_measure ?n (Ack_step ackit offsets s Main) < ack_measure ?n s"
          using np Blocked by (simp add: Ack_step_def main_step_def ack_measure_def)
        then show ?thesis ..
      qed
    qed
  next
    case Returned
    then show ?thesis using nr by simp
  qed
qed

lemma can_return:
  assumes total: "\<And>off w. \<exists>r w'. ackit off w = Inr (r, w')"
  shows "ack_inv ackit offsets s \<Longrightarrow> \<exists>sched. a_main (Ack_run ackit offsets sched s) = Returned"
proof (induction "ack_measure (length offsets) s" arbitrary: s rule: less_induct)
  case less
  show ?case
  proof (cases "a_main s = Returned")
    case True
    then have "a_main (Ack_run ackit offsets [] s) = Returned" by (simp add: Ack_run_def)
    then show ?thesis ..
  next
    case False
    from progress[OF less.prems total False] obtain t where
      t: "ack_measure (length offsets) (Ack_step ackit offsets s t) < ack_measure (length offsets) s"
      by blast
    have "ack_inv ackit offsets (Ack_step ackit offsets s t)"
      using less.prems total by (rule inv_step)
    from less.hyps[OF t this] obtain sched where
      "a_main (Ack_run ackit offsets sched (Ack_step ackit offsets s t)) = Returned" by blast
    then have "a_main (Ack_run ackit offsets (t # sched) s) = Returned" by (simp add: Ack_run_def)
    then show ?thesis ..
  qed
qed

lemma Ack_run_append:
  "Ack_run ackit offsets (a @ b) s = Ack_run ackit offsets b (Ack_run ackit offsets a s)"
  by (simp add: Ack_run_def)

lemma AckIt_result:
  assumes "AckIt AckSync off w = Inr (r, w')"
  shows "r = (case fst (AckSync (broker w) (msg off)) of
                None \<Rightarrow> None
              | Some e \<Rightarrow> if \<not> errors_Is e ErrMsgAlreadyAckd \<and> \<not> errors_Is e ErrMsgNotFound
                  then Some e else None)"
proof -
  obtain w1 where w1: "(if cancelFunc off \<noteq> None then call_cancel (cancelFunc off) w else Inr w) = Inr w1"
    and b: "broker w1 = broker w"
    using AckIt_guard by blast
  obtain err b' where a: "AckSync (broker w) (msg off) = (err, b')"
    by (cases "AckSync (broker w) (msg off)")
  show ?thesis
    using assms w1 b a
    by (cases err) (auto simp: AckIt_def Let_def split: if_splits)
qed

text \<open>
  C3. Under every schedule of the goroutines: \<^verbatim>\<open>Ack\<close> can always still return
  (no schedule blocks it for good); when it has returned, the error slice has the
  length of the input, every worker has exited, and the entry at index \<open>i\<close> is the
  error (nil for success) that \<^verbatim>\<open>AckIt\<close> returned for \<open>offsets[i]\<close>. When the
  broker's answer to an ack does not depend on what was ack'd before, the entry is what
  \<^verbatim>\<open>AckIt\<close> on \<open>offsets[i]\<close> alone returns, whatever the schedule.
\<close>

theorem Ack_positional:
  fixes AckSync :: "'b \<Rightarrow> Msg \<Rightarrow> error option \<times> 'b"
  shows "(\<exists>more. Ack (AckIt AckSync) (sched @ more) offsets w \<noteq> None)
    \<and> (Ack (AckIt AckSync) sched offsets w = Some (errs, w') \<longrightarrow>
         length errs = length offsets
         \<and> (\<forall>i<length offsets. \<exists>wi wi'.
               a_workers (Ack_run (AckIt AckSync) offsets sched (Ack_init offsets w)) ! i
                 = Exited wi (errs ! i)
               \<and> AckIt AckSync (offsets ! i) wi = Inr (errs ! i, wi'))
         \<and> ((\<forall>b b' m. fst (AckSync b m) = fst (AckSync b' m)) \<longrightarrow>
               (\<forall>i<length offsets. \<exists>wi'. AckIt AckSync (offsets ! i) w = Inr (errs ! i, wi'))))"
proof -
  let ?ackit = "AckIt AckSync"
  let ?s = "Ack_run ?ackit offsets sched (Ack_init offsets w)"
  have total: "\<And>off w. \<exists>r w'. ?ackit off w = Inr (r, w')" by (rule AckIt_total)
  have inv: "ack_inv ?ackit offsets ?s"
    using inv_init total by (rule inv_run)
  have A: "\<exists>more. Ack ?ackit (sched @ more) offsets w \<noteq> None"
  proof -
    from can_return[OF total inv] obtain more where
      "a_main (Ack_run ?ackit offsets more ?s) = Returned" by blast
    then have "Ack ?ackit (sched @ more) offsets w \<noteq> None"
      by (simp add: Ack_def Ack_run_append Let_def)
    then show ?thesis ..
  qed
  have B: "length errs = length offsets
         \<and> (\<forall>i<length offsets. \<exists>wi wi'. a_workers ?s ! i = Exited wi (errs ! i)
               \<and> ?ackit (offsets ! i) wi = Inr (errs ! i, wi'))
         \<and> ((\<forall>b b' m. fst (AckSync b m) = fst (AckSync b' m)) \<longrightarrow>
               (\<forall>i<length offsets. \<exists>wi'. ?ackit (offsets ! i) w = Inr (errs ! i, wi')))"
    if run: "Ack ?ackit sched offsets w = Some (errs, w')"
  proof -
    from run have ret: "a_main ?s = Returned" and e: "errs = a_errs ?s"
      by (auto simp: Ack_def Let_def split: if_splits)
    have len: "length errs = length offsets" unfolding e using ack_invD(2)[OF inv] .
    have pos: "\<exists>wi wi'. a_workers ?s ! i = Exited wi (errs ! i)
               \<and> ?ackit (offsets ! i) wi = Inr (errs ! i, wi')" if "i < length offsets" for i
      unfolding e using inv ret that by (rule inv_returned)
    have ind: "\<exists>wi'. ?ackit (offsets ! i) w = Inr (errs ! i, wi')"
      if st: "\<forall>b b' m. fst (AckSync b m) = fst (AckSync b' m)" and i: "i < length offsets" for i
    proof -
      from pos[OF i] obtain wi wi' where a: "?ackit (offsets ! i) wi = Inr (errs ! i, wi')" by blast
      obtain r w2 where b: "?ackit (offsets ! i) w = Inr (r, w2)" using total by blast
      have "fst (AckSync (broker w) (msg (offsets ! i))) = fst (AckSync (broker wi) (msg (offsets ! i)))"
        using st by blast
      then have "r = errs ! i"
        using AckIt_result[OF a] AckIt_result[OF b] by simp
      with b show ?thesis by blast
    qed
    from len pos ind show ?thesis by blast
  qed
  from A B show ?thesis by blast
qed

lemmas ack_eval = Ack_def Ack_run_def Ack_init_def Ack_step_def main_step_def worker_step_def
  waiter_step_def AckIt_def example_AckSync_def example_msg_def example_world_def Let_def

theorem Ack_positional_witness:
  "Ack (AckIt example_AckSync)
     [Main, Worker 0, Main, Worker 1, Worker 0, Main, Worker 1, Waiter, Worker 0, Worker 1,
      Waiter, Main]
     [\<lparr>seq = 0, msg = example_msg 0, cancelFunc = None\<rparr>,
      \<lparr>seq = 7, msg = example_msg 7, cancelFunc = None\<rparr>]
     example_world
   = Some ([Some (ErrOther ''connection closed''), None], example_world\<lparr>broker := [7]\<rparr>)
   \<and> Ack (AckIt example_AckSync)
     [Main, Worker 0, Main, Worker 1, Worker 0, Main, Worker 1, Waiter, Worker 0, Main]
     [\<lparr>seq = 0, msg = example_msg 0, cancelFunc = None\<rparr>,
      \<lparr>seq = 7, msg = example_msg 7, cancelFunc = None\<rparr>]
     example_world = None
   \<and> length [Some (ErrOther ''connection closed''), None :: error option] = 2
   \<and> (\<exists>wi'. AckIt example_AckSync \<lparr>seq = 0, msg = example_msg 0, cancelFunc = None\<rparr> example_world
         = Inr (Some (ErrOther ''connection closed''), wi'))"
proof -
  let ?sched = "[Main, Worker 0, Main, Worker 1, Worker 0, Main, Worker 1, Waiter, Worker 0,
    Worker 1, Waiter, Main]"
  let ?offs = "[\<lparr>seq = 0, msg = example_msg 0, cancelFunc = None\<rparr>,
      \<lparr>seq = 7, msg = example_msg 7, cancelFunc = None\<rparr>]"
  let ?errs = "[Some (ErrOther ''connection closed''), None :: error option]"
  have run: "Ack (AckIt example_AckSync) ?sched ?offs example_world
      = Some (?errs, example_world\<lparr>broker := [7]\<rparr>)"
    by (simp add: ack_eval)
  have blocked: "Ack (AckIt example_AckSync)
     [Main, Worker 0, Main, Worker 1, Worker 0, Main, Worker 1, Waiter, Worker 0, Main]
     ?offs example_world = None"
    by (simp add: ack_eval)
  from Ack_positional[of example_AckSync ?sched ?offs example_world ?errs
      "example_world\<lparr>broker := [7]\<rparr>"] run
  have len: "length ?errs = length ?offs" by blast
  have "\<exists>wi'. AckIt example_AckSync \<lparr>seq = 0, msg = example_msg 0, cancelFunc = None\<rparr> example_world
         = Inr (Some (ErrOther ''connection closed''), wi')"
    by (simp add: ack_eval)
  with run blocked len show ?thesis by simp
qed

end
